theory Spec2Isabelle
  imports Complex_Main
begin

section \<open>Vectors, operators and the library calls of the notebook\<close>

text \<open>
  The notebook \<^verbatim>\<open>docs/src/notebooks/Vectors and Matrices.ipynb\<close> runs a
  preconditioned inverse iteration on PETSc objects, in two cells that differ in the
  definition of \<^verbatim>\<open>stepChoice\<close> only. A PETSc \<^verbatim>\<open>Vec\<close> is a list of reals, a
  PETSc \<^verbatim>\<open>Mat\<close> the list of its rows, and the \<^verbatim>\<open>PC\<close> object a matrix as well:
  a linear map, applied by \<^verbatim>\<open>pc.apply\<close>. Floating-point numbers are read as reals,
  so the arithmetic of the model is exact.

  In the notebook all vectors and operators come from one finite element space and
  conform. The model does not check dimensions (a list operation stops at the shorter
  argument, where PETSc would refuse the call); statements that depend on the
  dimensions assume them.
\<close>

type_synonym vec = "real list"
type_synonym mat = "real list list"

text \<open>The 2x2 arrays \<^verbatim>\<open>smallA\<close>, \<^verbatim>\<open>smallM\<close> and \<^verbatim>\<open>evec\<close>, as pairs of rows.\<close>

type_synonym mat2 = "(real \<times> real) \<times> (real \<times> real)"

text \<open>
  The exceptions. \<^verbatim>\<open>ZeroDivisionError\<close> is what Python raises on a float
  division by zero, \<^verbatim>\<open>LinAlgError\<close> what the dense solver raises. The two
  \<^verbatim>\<open>Degenerate\<close> errors are named by the specification only; no statement of the
  notebook raises them.
\<close>

datatype error = ZeroDivisionError | LinAlgError
  | DegenerateIterateError | DegenerateSubspaceError

text \<open>The library calls the notebook makes, in the order it makes them.\<close>

datatype call = Duplicate | MatMult | VecDot | PCApply | Eigh

text \<open>\<^verbatim>\<open>x.dot(y)\<close>\<close>

definition dot :: "vec \<Rightarrow> vec \<Rightarrow> real" where
  "dot x y = sum_list (map2 (*) x y)"

text \<open>\<^verbatim>\<open>y = x.duplicate(); Op.mult(x, y)\<close>: the fresh vector \<open>y\<close> receives \<open>Op x\<close>.\<close>

definition mult :: "mat \<Rightarrow> vec \<Rightarrow> vec" where
  "mult Op x = map (\<lambda>row. dot row x) Op"

text \<open>\<^verbatim>\<open>x + y\<close> and \<^verbatim>\<open>c * x\<close> on \<^verbatim>\<open>Vec\<close> objects; both build a new vector.\<close>

definition vadd :: "vec \<Rightarrow> vec \<Rightarrow> vec" where
  "vadd x y = map2 (+) x y"

definition vscale :: "real \<Rightarrow> vec \<Rightarrow> vec" where
  "vscale c x = map ((*) c) x"

text \<open>\<^verbatim>\<open>Op.createVecLeft()\<close>: a vector with one entry per row of the operator.\<close>

definition createVecLeft :: "mat \<Rightarrow> vec" where
  "createVecLeft Op = replicate (length Op) 0"

section \<open>The state of the notebook\<close>

text \<open>
  The global names the driver cell reads and writes, the lines it has printed (pairs of
  the iteration index and the printed estimate) and the library calls made so far.
  \<open>A_mat\<close> and \<open>M_mat\<close> are \<^verbatim>\<open>A.mat\<close> and \<^verbatim>\<open>M.mat\<close>; \<open>w_vec\<close> and
  \<open>u_vec\<close> are \<^verbatim>\<open>w\<close> and \<^verbatim>\<open>u\<close>.
\<close>

record state =
  A_mat :: mat
  M_mat :: mat
  pc :: mat
  u0 :: vec
  w_vec :: vec
  Au0 :: vec
  Mu0 :: vec
  rho :: real
  u_vec :: vec
  alpha :: "real \<times> real"
  out :: "(nat \<times> real) list"
  calls :: "call list"

text \<open>A statement either completes or raises; a raise keeps the state reached so far.\<close>

datatype outcome = Done state | Raised error state

fun final :: "outcome \<Rightarrow> state" where
  "final (Done s) = s"
| "final (Raised e s) = s"

fun raised :: "outcome \<Rightarrow> error option" where
  "raised (Done s) = None"
| "raised (Raised e s) = Some e"

section \<open>The two step selectors\<close>

text \<open>
  A selector returns the pair of coefficients or the exception it raised, with the
  library calls it made.
\<close>

type_synonym selector = "mat \<Rightarrow> mat \<Rightarrow> vec \<Rightarrow> vec \<Rightarrow> (error + real \<times> real) \<times> call list"

text \<open>The dense solver \<^verbatim>\<open>scipy.linalg.eigh(a, b)\<close>: eigenvalues and eigenvector array.\<close>

type_synonym solver = "mat2 \<Rightarrow> mat2 \<Rightarrow> error + ((real \<times> real) \<times> mat2)"

text \<open>\<^verbatim>\<open>def stepChoice(Asc,Msc,w,u0): return (0.5,0.5)\<close>\<close>

definition stepChoice_const :: selector where
  "stepChoice_const Asc Msc w x = (Inr (1/2, 1/2), [])"

text \<open>The 2x2 arrays of the second \<^verbatim>\<open>stepChoice\<close>.\<close>

definition smallA :: "mat \<Rightarrow> vec \<Rightarrow> vec \<Rightarrow> mat2" where
  "smallA Asc w x =
     (let Ax = mult Asc x; Aw = mult Asc w
      in ((dot x Ax, dot x Aw), (dot w Ax, dot w Aw)))"

definition smallM :: "mat \<Rightarrow> vec \<Rightarrow> vec \<Rightarrow> mat2" where
  "smallM Msc w x =
     (let Mx = mult Msc x; Mw = mult Msc w
      in ((dot x Mx, dot x Mw), (dot w Mx, dot w Mw)))"

text \<open>
  The second \<^verbatim>\<open>stepChoice\<close>, with the dense solver as a parameter: four products, eight
  dot products, one call of the solver, and column 0 of the eigenvector array returned.
\<close>

definition stepChoice_rr :: "solver \<Rightarrow> selector" where
  "stepChoice_rr eigh Asc Msc w x =
     (case eigh (smallA Asc w x) (smallM Msc w x) of
        Inl e \<Rightarrow> Inl e
      | Inr (_, evec) \<Rightarrow> Inr (fst (fst evec), fst (snd evec)),
      [Duplicate, MatMult, Duplicate, MatMult, Duplicate, MatMult, Duplicate, MatMult,
       VecDot, VecDot, VecDot, VecDot, VecDot, VecDot, VecDot, VecDot, Eigh])"

section \<open>The driver loop\<close>

text \<open>
  \<^verbatim>\<open>Au0 = u0.duplicate(); A.mat.mult(u0,Au0)\<close>,
  \<^verbatim>\<open>Mu0 = u0.duplicate(); M.mat.mult(u0,Mu0)\<close>,
  \<^verbatim>\<open>rho = Au0.dot(u0)/Mu0.dot(u0)\<close>: both dot products are taken, then Python
  divides and raises on a zero divisor.
\<close>

definition rayleigh :: "state \<Rightarrow> outcome" where
  "rayleigh s =
     (let s1 = s\<lparr>Au0 := mult (A_mat s) (u0 s), calls := calls s @ [Duplicate, MatMult]\<rparr>;
          s2 = s1\<lparr>Mu0 := mult (M_mat s1) (u0 s1), calls := calls s1 @ [Duplicate, MatMult]\<rparr>;
          num = dot (Au0 s2) (u0 s2);
          den = dot (Mu0 s2) (u0 s2);
          s3 = s2\<lparr>calls := calls s2 @ [VecDot, VecDot]\<rparr>
      in if den = 0 then Raised ZeroDivisionError s3 else Done (s3\<lparr>rho := num / den\<rparr>))"

text \<open>\<^verbatim>\<open>print("[{}] Eigenvalue estimate: {}".format(it,rho/(pi**2)))\<close>\<close>

definition emit :: "nat \<Rightarrow> state \<Rightarrow> state" where
  "emit it s = s\<lparr>out := out s @ [(it, rho s / pi\<^sup>2)]\<rparr>"

text \<open>\<^verbatim>\<open>u = Au0+rho*Mu0\<close> and \<^verbatim>\<open>pc.apply(u,w)\<close>\<close>

definition direction :: "state \<Rightarrow> state" where
  "direction s =
     (let s1 = s\<lparr>u_vec := vadd (Au0 s) (vscale (rho s) (Mu0 s))\<rparr>
      in s1\<lparr>w_vec := mult (pc s1) (u_vec s1), calls := calls s1 @ [PCApply]\<rparr>)"

text \<open>
  \<^verbatim>\<open>alpha = stepChoice(A.mat,M.mat,w,u0)\<close> and \<^verbatim>\<open>u0 = alpha[0]*u0+alpha[1]*w\<close>
\<close>

definition update :: "selector \<Rightarrow> state \<Rightarrow> outcome" where
  "update stepChoice s =
     (case stepChoice (A_mat s) (M_mat s) (w_vec s) (u0 s) of
        (Inl e, cs) \<Rightarrow> Raised e (s\<lparr>calls := calls s @ cs\<rparr>)
      | (Inr al, cs) \<Rightarrow>
          (let s1 = s\<lparr>alpha := al, calls := calls s @ cs\<rparr>
           in Done (s1\<lparr>u0 := vadd (vscale (fst (alpha s1)) (u0 s1))
                                   (vscale (snd (alpha s1)) (w_vec s1))\<rparr>)))"

text \<open>The body of the loop: one pass.\<close>

definition pass :: "selector \<Rightarrow> nat \<Rightarrow> state \<Rightarrow> outcome" where
  "pass stepChoice it s =
     (case rayleigh s of
        Raised e s' \<Rightarrow> Raised e s'
      | Done s1 \<Rightarrow> update stepChoice (direction (emit it s1)))"

text \<open>\<^verbatim>\<open>for it in range(itMax):\<close> an exception leaves the loop.\<close>

fun loop :: "selector \<Rightarrow> nat list \<Rightarrow> state \<Rightarrow> outcome" where
  "loop stepChoice [] s = Done s"
| "loop stepChoice (it # its) s =
     (case pass stepChoice it s of
        Raised e s' \<Rightarrow> Raised e s'
      | Done s' \<Rightarrow> loop stepChoice its s')"

text \<open>
  The cell: \<^verbatim>\<open>u0 = A.mat.createVecLeft()\<close>, \<^verbatim>\<open>w = A.mat.createVecLeft()\<close>,
  \<^verbatim>\<open>u0.setRandom()\<close>, then the loop. The random entries of \<open>u0\<close> are the
  parameter \<open>x0\<close>; the names the loop assigns before it reads them start empty.
\<close>

definition init :: "mat \<Rightarrow> mat \<Rightarrow> mat \<Rightarrow> vec \<Rightarrow> state" where
  "init A M P x0 =
     \<lparr>A_mat = A, M_mat = M, pc = P, u0 = x0, w_vec = createVecLeft A,
      Au0 = [], Mu0 = [], rho = 0, u_vec = [], alpha = (0, 0), out = [], calls = []\<rparr>"

definition driver :: "selector \<Rightarrow> nat \<Rightarrow> mat \<Rightarrow> mat \<Rightarrow> mat \<Rightarrow> vec \<Rightarrow> outcome" where
  "driver stepChoice itMax A M P x0 = loop stepChoice [0..<itMax] (init A M P x0)"

section \<open>Vocabulary of the specification\<close>

subsection \<open>Operators\<close>

text \<open>An operator on vectors of dimension \<open>n\<close>: \<open>n\<close> rows of \<open>n\<close> entries.\<close>

definition square :: "nat \<Rightarrow> mat \<Rightarrow> bool" where
  "square n Op \<longleftrightarrow> length Op = n \<and> list_all (\<lambda>row. length row = n) Op"

definition symmetric :: "mat \<Rightarrow> bool" where
  "symmetric Op \<longleftrightarrow>
     list_all (\<lambda>i. list_all (\<lambda>j. Op ! i ! j = Op ! j ! i) [0..<length Op]) [0..<length Op]"

definition pos_def :: "nat \<Rightarrow> mat \<Rightarrow> bool" where
  "pos_def n Op \<longleftrightarrow>
     (\<forall>x. length x = n \<longrightarrow> x \<noteq> replicate n 0 \<longrightarrow> 0 < dot x (mult Op x))"

text \<open>The bilinear form \<open>x \<cdot> Op y\<close> and the Rayleigh quotient \<open>(x \<cdot> A x) / (x \<cdot> M x)\<close>.\<close>

definition form :: "mat \<Rightarrow> vec \<Rightarrow> vec \<Rightarrow> real" where
  "form Op x y = dot x (mult Op y)"

definition rayleigh_rho :: "mat \<Rightarrow> mat \<Rightarrow> vec \<Rightarrow> real" where
  "rayleigh_rho A M x = form A x x / form M x x"

text \<open>Linear independence of two vectors of dimension \<open>n\<close>.\<close>

definition independent :: "nat \<Rightarrow> vec \<Rightarrow> vec \<Rightarrow> bool" where
  "independent n x y \<longleftrightarrow>
     (\<forall>a b. vadd (vscale a x) (vscale b y) = replicate n 0 \<longrightarrow> a = 0 \<and> b = 0)"

text \<open>
  The search direction as the notebook's text and the specification write it,
  \<open>P\<^sup>-\<^sup>1 (A u - \<rho> M u)\<close>.
\<close>

definition documented_direction :: "mat \<Rightarrow> mat \<Rightarrow> mat \<Rightarrow> vec \<Rightarrow> real \<Rightarrow> vec" where
  "documented_direction P A M x r = mult P (vadd (mult A x) (vscale (- r) (mult M x)))"

text \<open>A sequence of estimates that never increases.\<close>

definition nonincreasing :: "real list \<Rightarrow> bool" where
  "nonincreasing xs \<longleftrightarrow> sorted_wrt (\<lambda>a b. b \<le> a) xs"

subsection \<open>The 2x2 generalized problem\<close>

text \<open>
  \<^verbatim>\<open>eigh(a, b)\<close> reads the lower triangles of its arguments (\<^verbatim>\<open>lower=True\<close> is the
  default): entries (0,0), (1,0) and (1,1).
\<close>

definition lower :: "mat2 \<Rightarrow> real \<times> real \<times> real" where
  "lower m = (fst (fst m), fst (snd m), snd (snd m))"

text \<open>The symmetric matrix with that lower triangle, as a bilinear form and applied.\<close>

fun bil2 :: "real \<times> real \<times> real \<Rightarrow> real \<times> real \<Rightarrow> real \<times> real \<Rightarrow> real" where
  "bil2 (m00, m10, m11) (x0, x1) (y0, y1) =
     m00 * x0 * y0 + m10 * (x0 * y1 + x1 * y0) + m11 * x1 * y1"

fun app2 :: "real \<times> real \<times> real \<Rightarrow> real \<times> real \<Rightarrow> real \<times> real" where
  "app2 (m00, m10, m11) (x0, x1) = (m00 * x0 + m10 * x1, m10 * x0 + m11 * x1)"

text \<open>A full 2x2 array applied to a pair, and a pair scaled.\<close>

definition apply2 :: "mat2 \<Rightarrow> real \<times> real \<Rightarrow> real \<times> real" where
  "apply2 m x = (fst (fst m) * fst x + snd (fst m) * snd x,
                 fst (snd m) * fst x + snd (snd m) * snd x)"

definition scale_pair :: "real \<Rightarrow> real \<times> real \<Rightarrow> real \<times> real" where
  "scale_pair c x = (c * fst x, c * snd x)"

definition col0 :: "mat2 \<Rightarrow> real \<times> real" where
  "col0 V = (fst (fst V), fst (snd V))"

definition col1 :: "mat2 \<Rightarrow> real \<times> real" where
  "col1 V = (snd (fst V), snd (snd V))"

definition det2 :: "mat2 \<Rightarrow> real" where
  "det2 V = fst (fst V) * snd (snd V) - snd (fst V) * fst (snd V)"

definition scale2 :: "real \<Rightarrow> mat2 \<Rightarrow> mat2" where
  "scale2 k m = ((k * fst (fst m), k * snd (fst m)), (k * fst (snd m), k * snd (snd m)))"

text \<open>
  What \<^verbatim>\<open>eigh(a, b)\<close> documents of its result \<open>(w, V)\<close>: the eigenvalues ascend,
  \<open>V\<^sup>T a V = diag w\<close> and \<open>V\<^sup>T b V = I\<close>.
\<close>

definition decomposes :: "mat2 \<Rightarrow> mat2 \<Rightarrow> real \<times> real \<Rightarrow> mat2 \<Rightarrow> bool" where
  "decomposes a b w V \<longleftrightarrow>
     fst w \<le> snd w \<and>
     bil2 (lower a) (col0 V) (col0 V) = fst w \<and>
     bil2 (lower a) (col0 V) (col1 V) = 0 \<and>
     bil2 (lower a) (col1 V) (col1 V) = snd w \<and>
     bil2 (lower b) (col0 V) (col0 V) = 1 \<and>
     bil2 (lower b) (col0 V) (col1 V) = 0 \<and>
     bil2 (lower b) (col1 V) (col1 V) = 1"

text \<open>Positive definiteness of the matrix \<^verbatim>\<open>eigh\<close> reads from \<open>b\<close>.\<close>

definition pd2 :: "mat2 \<Rightarrow> bool" where
  "pd2 b \<longleftrightarrow> (case lower b of (b00, b10, b11) \<Rightarrow> 0 < b00 \<and> 0 < b00 * b11 - b10 * b10)"

text \<open>
  The assumptions on the dense solver. Two are documented properties of
  \<^verbatim>\<open>scipy.linalg.eigh\<close>: a returned result decomposes the pencil, and a positive
  definite \<open>b\<close> is accepted. The third holds in exact arithmetic: scaling both
  arguments by \<open>k > 0\<close> keeps the eigenvalues and divides the eigenvectors by
  \<open>sqrt k\<close>. Nothing is assumed of the solver on a \<open>b\<close> that is not positive
  definite: it may raise, or return a pair.
\<close>

definition sound :: "solver \<Rightarrow> bool" where
  "sound eigh \<longleftrightarrow> (\<forall>a b w V. eigh a b = Inr (w, V) \<longrightarrow> decomposes a b w V)"

definition accepts :: "solver \<Rightarrow> bool" where
  "accepts eigh \<longleftrightarrow> (\<forall>a b. pd2 b \<longrightarrow> (\<exists>r. eigh a b = Inr r))"

definition equivariant :: "solver \<Rightarrow> bool" where
  "equivariant eigh \<longleftrightarrow>
     (\<forall>k a b. 0 < k \<longrightarrow>
        eigh (scale2 k a) (scale2 k b) =
          (case eigh a b of
             Inl e \<Rightarrow> Inl e
           | Inr (w, V) \<Rightarrow> Inr (w, scale2 (1 / sqrt k) V)))"

subsection \<open>A solver that meets the assumptions\<close>

text \<open>
  A closed form of the 2x2 problem, to run the driver on concrete inputs and to show
  that the assumptions above can be met together. It follows the route of the LAPACK
  driver behind \<^verbatim>\<open>eigh\<close>: factor \<open>b = L L\<^sup>T\<close>, solve the symmetric problem for
  \<open>L\<^sup>-\<^sup>1 a L\<^sup>-\<^sup>T\<close>, transform the eigenvectors back.

  The factorisation is exact here, so a \<open>b\<close> that is not positive definite is always
  refused with \<^verbatim>\<open>LinAlgError\<close>. In double precision the factorisation of a
  singular \<open>b\<close> can also succeed through rounding, and the library then returns a
  pair. The general theorems assume nothing of the solver on such a \<open>b\<close>; the
  counterexamples that end in this refusal have the small mass matrix
  \<open>((1, 2), (2, 4))\<close>, whose factorisation stops at an exactly zero pivot in double
  precision as well.

  \<open>chol0\<close> and \<open>chol1\<close> are the columns of \<open>L\<^sup>-\<^sup>T\<close>.
\<close>

definition chol0 :: "real \<times> real \<times> real \<Rightarrow> real \<times> real" where
  "chol0 b = (case b of (b00, b10, b11) \<Rightarrow> (1 / sqrt b00, 0))"

definition chol1 :: "real \<times> real \<times> real \<Rightarrow> real \<times> real" where
  "chol1 b = (case b of (b00, b10, b11) \<Rightarrow>
     (- b10 / (sqrt b00 * sqrt (b00 * b11 - b10 * b10)),
      sqrt b00 / sqrt (b00 * b11 - b10 * b10)))"

text \<open>The symmetric 2x2 problem: eigenvalues ascending, eigenvectors a rotation.\<close>

definition jacobi :: "real \<times> real \<times> real \<Rightarrow> (real \<times> real) \<times> mat2" where
  "jacobi c = (case c of (p, q, r) \<Rightarrow>
     if q = 0 then (if p \<le> r then ((p, r), ((1, 0), (0, 1))) else ((r, p), ((0, 1), (1, 0))))
     else
       (let d = sqrt ((p - r)\<^sup>2 + 4 * q\<^sup>2);
            w0 = (p + r - d) / 2;
            w1 = (p + r + d) / 2;
            nrm = sqrt (q\<^sup>2 + (w0 - p)\<^sup>2)
        in ((w0, w1), ((q / nrm, - (w0 - p) / nrm), ((w0 - p) / nrm, q / nrm)))))"

definition comb :: "real \<times> real \<Rightarrow> real \<times> real \<Rightarrow> real \<times> real \<Rightarrow> real \<times> real" where
  "comb g h y = (fst y * fst g + snd y * fst h, fst y * snd g + snd y * snd h)"

definition eigh_ref :: solver where
  "eigh_ref a b =
     (if \<not> pd2 b then Inl LinAlgError
      else
        (let g = chol0 (lower b); h = chol1 (lower b);
             c = (bil2 (lower a) g g, bil2 (lower a) g h, bil2 (lower a) h h);
             (w, Y) = jacobi c;
             c0 = comb g h (col0 Y); c1 = comb g h (col1 Y)
         in Inr (w, ((fst c0, fst c1), (snd c0, snd c1)))))"

section \<open>Vocabulary of the proofs\<close>

text \<open>
  The direction a pass leaves in \<^verbatim>\<open>w\<close>, as a function of the iterate: the
  preconditioner applied to \<^verbatim>\<open>Au0+rho*Mu0\<close>.
\<close>

definition computed_direction :: "mat \<Rightarrow> mat \<Rightarrow> mat \<Rightarrow> vec \<Rightarrow> vec" where
  "computed_direction P A M x =
     mult P (vadd (mult A x) (vscale (rayleigh_rho A M x) (mult M x)))"

text \<open>The next iterate, \<^verbatim>\<open>alpha[0]*u0+alpha[1]*w\<close>.\<close>

definition combine :: "real \<times> real \<Rightarrow> vec \<Rightarrow> vec \<Rightarrow> vec" where
  "combine al x w = vadd (vscale (fst al) x) (vscale (snd al) w)"

text \<open>A selector whose answer to a scaled pair of vectors is a scaled answer.\<close>

definition homogeneous :: "selector \<Rightarrow> bool" where
  "homogeneous sel \<longleftrightarrow>
     (\<forall>A M w x c. c \<noteq> 0 \<longrightarrow>
        (\<exists>k. k \<noteq> 0 \<and>
           fst (sel A M (vscale c w) (vscale c x)) =
             (case fst (sel A M w x) of Inl e \<Rightarrow> Inl e | Inr al \<Rightarrow> Inr (scale_pair k al))))"

text \<open>Two states with the same operators and output whose iterates are parallel.\<close>

definition scaled :: "state \<Rightarrow> state \<Rightarrow> bool" where
  "scaled s t \<longleftrightarrow>
     A_mat t = A_mat s \<and> M_mat t = M_mat s \<and> pc t = pc s \<and> out t = out s \<and>
     (\<exists>c. c \<noteq> 0 \<and> u0 t = vscale c (u0 s))"

section \<open>Vectors and bilinear forms\<close>

lemma dot_commute: "dot x y = dot y x"
  unfolding dot_def
proof (induction x arbitrary: y)
  case Nil then show ?case by simp
next
  case (Cons a x) then show ?case by (cases y) (simp_all add: mult.commute)
qed

lemma dot_vadd_left: "length x = length y \<Longrightarrow> dot (vadd x y) z = dot x z + dot y z"
  unfolding dot_def vadd_def
proof (induction x y arbitrary: z rule: list_induct2)
  case Nil then show ?case by simp
next
  case (Cons a x b y) then show ?case by (cases z) (simp_all add: algebra_simps)
qed

lemma dot_vscale_left: "dot (vscale c x) z = c * dot x z"
  unfolding dot_def vscale_def
proof (induction x arbitrary: z)
  case Nil then show ?case by simp
next
  case (Cons a x) then show ?case by (cases z) (simp_all add: algebra_simps)
qed

lemma dot_vadd_right: "length x = length y \<Longrightarrow> dot z (vadd x y) = dot z x + dot z y"
  using dot_vadd_left[of x y z] by (simp add: dot_commute)

lemma dot_vscale_right: "dot z (vscale c x) = c * dot z x"
  using dot_vscale_left[of c x z] by (simp add: dot_commute)

lemma length_mult [simp]: "length (mult Op x) = length Op"
  by (simp add: mult_def)

lemma length_vadd [simp]: "length (vadd x y) = min (length x) (length y)"
  by (simp add: vadd_def)

lemma length_vscale [simp]: "length (vscale c x) = length x"
  by (simp add: vscale_def)

lemma mult_vadd: "length x = length y \<Longrightarrow> mult Op (vadd x y) = vadd (mult Op x) (mult Op y)"
  by (induction Op) (simp_all add: mult_def vadd_def dot_vadd_right[unfolded vadd_def])

lemma mult_vscale: "mult Op (vscale c x) = vscale c (mult Op x)"
  by (induction Op) (simp_all add: mult_def vscale_def dot_vscale_right[unfolded vscale_def])

lemma form_comb:
  assumes "length x = length y"
  shows "form Op (vadd (vscale a x) (vscale b y)) (vadd (vscale c x) (vscale d y)) =
         a * c * form Op x x + a * d * form Op x y + b * c * form Op y x + b * d * form Op y y"
  using assms
  by (simp add: form_def mult_vadd mult_vscale dot_vadd_left dot_vadd_right
      dot_vscale_left dot_vscale_right algebra_simps)

lemma dot_sum: "length x = length y \<Longrightarrow> dot x y = (\<Sum>i<length x. x ! i * y ! i)"
  by (simp add: dot_def sum_list_sum_nth atLeast0LessThan)

lemma form_sum:
  assumes "square n Op" "length x = n" "length y = n"
  shows "form Op x y = (\<Sum>i<n. \<Sum>j<n. x ! i * (Op ! i ! j * y ! j))"
proof -
  have "form Op x y = (\<Sum>i<n. x ! i * mult Op y ! i)"
    using assms by (simp add: form_def dot_sum square_def)
  also have "\<dots> = (\<Sum>i<n. x ! i * (\<Sum>j<n. Op ! i ! j * y ! j))"
  proof (rule sum.cong[OF refl])
    fix i assume "i \<in> {..<n}"
    then have i: "i < length Op" using assms by (simp add: square_def)
    then have "length (Op ! i) = n" using assms by (simp add: square_def list_all_length)
    then show "x ! i * mult Op y ! i = x ! i * (\<Sum>j<n. Op ! i ! j * y ! j)"
      using i assms by (simp add: mult_def dot_sum)
  qed
  finally show ?thesis by (simp add: sum_distrib_left)
qed

lemma form_symmetric:
  assumes "square n Op" "symmetric Op" "length x = n" "length y = n"
  shows "form Op x y = form Op y x"
proof -
  have sym: "Op ! i ! j = Op ! j ! i" if "i < n" "j < n" for i j
    using assms(1,2) that by (simp add: symmetric_def square_def list_all_iff)
  have "form Op x y = (\<Sum>i<n. \<Sum>j<n. x ! i * (Op ! i ! j * y ! j))"
    using assms by (simp add: form_sum)
  also have "\<dots> = (\<Sum>j<n. \<Sum>i<n. x ! i * (Op ! i ! j * y ! j))"
    by (rule sum.swap)
  also have "\<dots> = (\<Sum>j<n. \<Sum>i<n. y ! j * (Op ! j ! i * x ! i))"
    by (intro sum.cong refl) (simp add: sym mult.commute mult.left_commute)
  also have "\<dots> = form Op y x"
    using assms by (simp add: form_sum)
  finally show ?thesis .
qed

lemma vscale_vscale: "vscale a (vscale b x) = vscale (a * b) x"
  by (simp add: vscale_def)

lemma vscale_vadd: "vscale k (vadd x y) = vadd (vscale k x) (vscale k y)"
  by (induction x y rule: list_induct2') (simp_all add: vscale_def vadd_def algebra_simps)

lemma vscale_commute: "vscale a (vscale b x) = vscale b (vscale a x)"
  by (simp add: vscale_def mult.left_commute)

lemma form_scale: "form Op (vscale c x) (vscale c y) = (c * c) * form Op x y"
  by (simp add: form_def mult_vscale dot_vscale_left dot_vscale_right)

lemma rayleigh_rho_scale: "c \<noteq> 0 \<Longrightarrow> rayleigh_rho A M (vscale c x) = rayleigh_rho A M x"
  by (simp add: rayleigh_rho_def form_scale)

lemma form_vscale_left: "form Op (vscale c x) y = c * form Op x y"
  by (simp add: form_def dot_vscale_left)

lemma form_vscale_right: "form Op x (vscale c y) = c * form Op x y"
  by (simp add: form_def mult_vscale dot_vscale_right)

lemma computed_direction_scale:
  assumes "c \<noteq> 0"
  shows "computed_direction P A M (vscale c x) = vscale c (computed_direction P A M x)"
proof -
  let ?q = "rayleigh_rho A M x"
  have "vadd (mult A (vscale c x)) (vscale ?q (mult M (vscale c x))) =
        vadd (vscale c (mult A x)) (vscale c (vscale ?q (mult M x)))"
    by (simp only: mult_vscale vscale_commute[of ?q c])
  also have "\<dots> = vscale c (vadd (mult A x) (vscale ?q (mult M x)))"
    by (simp only: vscale_vadd)
  finally show ?thesis
    unfolding computed_direction_def rayleigh_rho_scale[OF assms] by (simp only: mult_vscale)
qed

lemma length_combine: "length x = n \<Longrightarrow> length w = n \<Longrightarrow> length (combine al x w) = n"
  by (simp add: combine_def)

lemma combine_unit: "length x = length w \<Longrightarrow> combine (1, 0) x w = x"
  unfolding combine_def vadd_def vscale_def
  by (induction x w rule: list_induct2) simp_all

lemma combine_scale:
  "combine (scale_pair k al) (vscale c x) (vscale c w) = vscale (k * c) (combine al x w)"
proof -
  have "vscale (k * fst al) (vscale c x) = vscale (k * c) (vscale (fst al) x)"
    "vscale (k * snd al) (vscale c w) = vscale (k * c) (vscale (snd al) w)"
    by (simp_all add: vscale_vscale mult.assoc mult.left_commute mult.commute)
  then show ?thesis
    unfolding combine_def scale_pair_def fst_conv snd_conv by (simp only: vscale_vadd)
qed

lemma combine_nth:
  assumes "length x = n" "length w = n" "i < n"
  shows "vadd (vscale a x) (vscale b w) ! i = a * x ! i + b * w ! i"
  using assms by (simp add: vadd_def vscale_def)

lemma nonincreasing_scale:
  assumes "nonincreasing xs" "0 \<le> c"
  shows "nonincreasing (map (\<lambda>v. v * c) xs)"
  using assms unfolding nonincreasing_def
  by (induction xs) (simp_all add: mult_right_mono)

section \<open>The 2x2 problem\<close>

lemma bil2_basis:
  "(det2 V)\<^sup>2 * bil2 m (x0, x1) (x0, x1) =
     (x0 * snd (snd V) - x1 * snd (fst V))\<^sup>2 * bil2 m (col0 V) (col0 V)
     + 2 * (x0 * snd (snd V) - x1 * snd (fst V)) * (x1 * fst (fst V) - x0 * fst (snd V)) * bil2 m (col0 V) (col1 V)
     + (x1 * fst (fst V) - x0 * fst (snd V))\<^sup>2 * bil2 m (col1 V) (col1 V)"
  by (cases m; cases V) (auto simp: det2_def col0_def col1_def power2_eq_square algebra_simps)

lemma cramer_zero:
  assumes "x0 * snd (snd V) - x1 * snd (fst V) = 0" "x1 * fst (fst V) - x0 * fst (snd V) = 0"
    "det2 V \<noteq> 0"
  shows "x0 = 0 \<and> x1 = 0"
proof -
  define p where "p = x0 * snd (snd V) - x1 * snd (fst V)"
  define q where "q = x1 * fst (fst V) - x0 * fst (snd V)"
  have "det2 V * x0 = fst (fst V) * p + snd (fst V) * q"
    by (simp add: p_def q_def det2_def algebra_simps)
  moreover have "det2 V * x1 = fst (snd V) * p + snd (snd V) * q"
    by (simp add: p_def q_def det2_def algebra_simps)
  moreover have "p = 0" "q = 0" using assms(1,2) by (simp_all add: p_def q_def)
  ultimately have "det2 V * x0 = 0" "det2 V * x1 = 0" by simp_all
  then show ?thesis using assms(3) by simp
qed

lemma decomposes_det:
  assumes "decomposes a b w V"
  shows "det2 V \<noteq> 0"
proof
  assume d: "det2 V = 0"
  have "0 = (1 * snd (snd V) - 0 * snd (fst V))\<^sup>2 * 1 + (0 * fst (fst V) - 1 * fst (snd V))\<^sup>2 * 1"
    using bil2_basis[of V "lower b" 1 0] assms d by (simp add: decomposes_def)
  then have "(snd (snd V))\<^sup>2 + (fst (snd V))\<^sup>2 = 0" by simp
  then have z: "snd (snd V) = 0" "fst (snd V) = 0" by simp_all
  obtain b00 b10 b11 where b: "lower b = (b00, b10, b11)" by (metis prod_cases3)
  from assms have "b00 * fst (fst V) * fst (fst V) = 1" "b00 * fst (fst V) * snd (fst V) = 0"
    "b00 * snd (fst V) * snd (fst V) = 1"
    by (simp_all add: decomposes_def b col0_def col1_def z)
  then show False
    by (metis mult_eq_0_iff mult_zero_right zero_neq_one mult.assoc)
qed

lemma decomposes_pos:
  assumes "decomposes a b w V" "x \<noteq> (0, 0)"
  shows "0 < bil2 (lower b) x x"
proof -
  obtain x0 x1 where x: "x = (x0, x1)" by (cases x)
  let ?p = "x0 * snd (snd V) - x1 * snd (fst V)" and ?q = "x1 * fst (fst V) - x0 * fst (snd V)"
  have d: "det2 V \<noteq> 0" using assms(1) by (rule decomposes_det)
  have eq: "(det2 V)\<^sup>2 * bil2 (lower b) x x = ?p\<^sup>2 + ?q\<^sup>2"
    using bil2_basis[of V "lower b" x0 x1] assms(1) by (simp add: decomposes_def x)
  have "?p \<noteq> 0 \<or> ?q \<noteq> 0" using cramer_zero[of x0 V x1] d assms(2) x by auto
  then have "0 < ?p\<^sup>2 + ?q\<^sup>2" by (auto simp: sum_power2_gt_zero_iff)
  with eq have "0 < (det2 V)\<^sup>2 * bil2 (lower b) x x" by simp
  then show ?thesis using d by (simp add: zero_less_mult_iff)
qed

lemma decomposes_min:
  assumes "decomposes a b w V"
  shows "fst w * bil2 (lower b) x x \<le> bil2 (lower a) x x"
proof -
  obtain x0 x1 where x: "x = (x0, x1)" by (cases x)
  let ?p = "x0 * snd (snd V) - x1 * snd (fst V)" and ?q = "x1 * fst (fst V) - x0 * fst (snd V)"
  have d: "0 < (det2 V)\<^sup>2" using decomposes_det[OF assms] by simp
  have eb: "(det2 V)\<^sup>2 * bil2 (lower b) x x = ?p\<^sup>2 + ?q\<^sup>2"
    using bil2_basis[of V "lower b" x0 x1] assms by (simp add: decomposes_def x)
  have ea: "(det2 V)\<^sup>2 * bil2 (lower a) x x = ?p\<^sup>2 * fst w + ?q\<^sup>2 * snd w"
    using bil2_basis[of V "lower a" x0 x1] assms by (simp add: decomposes_def x)
  have "?q\<^sup>2 * fst w \<le> ?q\<^sup>2 * snd w"
    using assms by (intro mult_left_mono) (simp_all add: decomposes_def)
  then have "(det2 V)\<^sup>2 * (fst w * bil2 (lower b) x x) \<le> (det2 V)\<^sup>2 * bil2 (lower a) x x"
    using ea eb by (simp add: algebra_simps)
  then show ?thesis using d by simp
qed

lemma decomposes_eigenvector:
  assumes "decomposes a b w V"
  shows "app2 (lower a) (col0 V) = (fst w * fst (app2 (lower b) (col0 V)), fst w * snd (app2 (lower b) (col0 V)))"
proof -
  obtain v00 v01 v10 v11 where V: "V = ((v00, v01), (v10, v11))" by (metis surj_pair)
  obtain a00 a10 a11 where a: "lower a = (a00, a10, a11)" by (metis prod_cases3)
  obtain b00 b10 b11 where b: "lower b = (b00, b10, b11)" by (metis prod_cases3)
  define y0 where "y0 = (a00 * v00 + a10 * v10) - fst w * (b00 * v00 + b10 * v10)"
  define y1 where "y1 = (a10 * v00 + a11 * v10) - fst w * (b10 * v00 + b11 * v10)"
  have d: "det2 V \<noteq> 0" using assms by (rule decomposes_det)
  from assms have h: "a00 * v00 * v00 + a10 * (v00 * v10 + v10 * v00) + a11 * v10 * v10 = fst w"
    "a00 * v00 * v01 + a10 * (v00 * v11 + v10 * v01) + a11 * v10 * v11 = 0"
    "b00 * v00 * v00 + b10 * (v00 * v10 + v10 * v00) + b11 * v10 * v10 = 1"
    "b00 * v00 * v01 + b10 * (v00 * v11 + v10 * v01) + b11 * v10 * v11 = 0"
    by (simp_all add: decomposes_def V a b col0_def col1_def)
  have "v00 * y0 + v10 * y1 =
      (a00 * v00 * v00 + a10 * (v00 * v10 + v10 * v00) + a11 * v10 * v10)
      - fst w * (b00 * v00 * v00 + b10 * (v00 * v10 + v10 * v00) + b11 * v10 * v10)"
    by (simp add: y0_def y1_def algebra_simps)
  then have e0: "v00 * y0 + v10 * y1 = 0"
    by (simp only: h(1) h(3) mult_1_right diff_self)
  have "v01 * y0 + v11 * y1 =
      (a00 * v00 * v01 + a10 * (v00 * v11 + v10 * v01) + a11 * v10 * v11)
      - fst w * (b00 * v00 * v01 + b10 * (v00 * v11 + v10 * v01) + b11 * v10 * v11)"
    by (simp add: y0_def y1_def algebra_simps)
  then have e1: "v01 * y0 + v11 * y1 = 0"
    by (simp only: h(2) h(4) mult_zero_right diff_self)
  have "det2 V * y0 = v11 * (v00 * y0 + v10 * y1) - v10 * (v01 * y0 + v11 * y1)"
    by (simp add: V det2_def algebra_simps)
  then have "det2 V * y0 = 0" by (simp only: e0 e1 mult_zero_right diff_self)
  moreover have "det2 V * y1 = v00 * (v01 * y0 + v11 * y1) - v01 * (v00 * y0 + v10 * y1)"
    by (simp add: V det2_def algebra_simps)
  then have "det2 V * y1 = 0" by (simp only: e0 e1 mult_zero_right diff_self)
  ultimately have "y0 = 0" "y1 = 0" using d by simp_all
  then show ?thesis by (simp add: V a b col0_def y0_def y1_def)
qed

lemma bil2_apply:
  "bil2 m y y = fst y * fst (app2 m y) + snd y * snd (app2 m y)"
  by (cases m; cases y) (simp add: algebra_simps)

lemma apply2_symmetric:
  assumes "snd (fst m) = fst (snd m)"
  shows "apply2 m y = app2 (lower m) y"
  using assms by (cases m; cases y) (auto simp: apply2_def lower_def)

lemma decomposes_least:
  assumes "decomposes a b wv V" "y \<noteq> (0, 0)"
    and "app2 (lower a) y = scale_pair om (app2 (lower b) y)"
  shows "fst wv \<le> om"
proof -
  have "bil2 (lower a) y y = om * bil2 (lower b) y y"
    by (simp add: bil2_apply assms(3) scale_pair_def algebra_simps)
  moreover have "fst wv * bil2 (lower b) y y \<le> bil2 (lower a) y y"
    using assms(1) by (rule decomposes_min)
  moreover have "0 < bil2 (lower b) y y" using assms(1,2) by (rule decomposes_pos)
  ultimately show ?thesis by simp
qed

section \<open>The reference solver meets the assumptions\<close>

lemma bil2_comb:
  "bil2 m (comb g h x) (comb g h y) = bil2 (bil2 m g g, bil2 m g h, bil2 m h h) x y"
  by (cases m; cases g; cases h; cases x; cases y) (simp add: comb_def algebra_simps)

lemma chol_orthonormal:
  assumes "0 < b00" "0 < b00 * b11 - b10 * b10"
  shows "bil2 (b00, b10, b11) (chol0 (b00, b10, b11)) (chol0 (b00, b10, b11)) = 1"
    and "bil2 (b00, b10, b11) (chol0 (b00, b10, b11)) (chol1 (b00, b10, b11)) = 0"
    and "bil2 (b00, b10, b11) (chol1 (b00, b10, b11)) (chol1 (b00, b10, b11)) = 1"
proof -
  define s where "s = sqrt b00"
  define t where "t = sqrt (b00 * b11 - b10 * b10)"
  have s: "0 < s" "s * s = b00" using assms by (simp_all add: s_def)
  have t: "0 < t" "t * t = b00 * b11 - b10 * b10" using assms by (simp_all add: t_def)
  show "bil2 (b00, b10, b11) (chol0 (b00, b10, b11)) (chol0 (b00, b10, b11)) = 1"
    using assms(1) by (simp add: chol0_def)
  show "bil2 (b00, b10, b11) (chol0 (b00, b10, b11)) (chol1 (b00, b10, b11)) = 0"
    using s t by (simp add: chol0_def chol1_def s_def[symmetric] t_def[symmetric] field_simps)
  have "b00 * (b10 * b10) - 2 * b10 * b10 * (s * s) + b11 * (s * s) * (s * s) = (s * s) * (t * t)"
    by (simp only: s t) (simp add: algebra_simps)
  then show "bil2 (b00, b10, b11) (chol1 (b00, b10, b11)) (chol1 (b00, b10, b11)) = 1"
    using s(1) t(1) by (simp add: chol1_def s_def[symmetric] t_def[symmetric] field_simps)
qed

lemma jacobi_diag:
  assumes "jacobi (p, q, r) = (w, Y)"
  shows "fst w \<le> snd w \<and>
     bil2 (p, q, r) (col0 Y) (col0 Y) = fst w \<and>
     bil2 (p, q, r) (col0 Y) (col1 Y) = 0 \<and>
     bil2 (p, q, r) (col1 Y) (col1 Y) = snd w \<and>
     bil2 (1, 0, 1) (col0 Y) (col0 Y) = 1 \<and>
     bil2 (1, 0, 1) (col0 Y) (col1 Y) = 0 \<and>
     bil2 (1, 0, 1) (col1 Y) (col1 Y) = 1"
proof (cases "q = 0")
  case True
  then have "(w, Y) = (if p \<le> r then ((p, r), ((1, 0), (0, 1))) else ((r, p), ((0, 1), (1, 0))))"
    using assms by (simp add: jacobi_def)
  then have wy: "p \<le> r \<and> w = (p, r) \<and> Y = ((1, 0), (0, 1)) \<or> r < p \<and> w = (r, p) \<and> Y = ((0, 1), (1, 0))"
    by (auto split: if_splits)
  from wy have c1: "fst w \<le> snd w" by auto
  from wy True have c2: "bil2 (p, q, r) (col0 Y) (col0 Y) = fst w" by (auto simp: col0_def)
  from wy True have c3: "bil2 (p, q, r) (col0 Y) (col1 Y) = 0" by (auto simp: col0_def col1_def)
  from wy True have c4: "bil2 (p, q, r) (col1 Y) (col1 Y) = snd w" by (auto simp: col1_def)
  from wy have c5: "bil2 (1, 0, 1) (col0 Y) (col0 Y) = 1" by (auto simp: col0_def)
  from wy have c6: "bil2 (1, 0, 1) (col0 Y) (col1 Y) = 0" by (auto simp: col0_def col1_def)
  from wy have c7: "bil2 (1, 0, 1) (col1 Y) (col1 Y) = 1" by (auto simp: col1_def)
  show ?thesis by (intro conjI) (fact c1 c2 c3 c4 c5 c6 c7)+
next
  case False
  define d where "d = sqrt ((p - r)\<^sup>2 + 4 * q\<^sup>2)"
  define w0 where "w0 = (p + r - d) / 2"
  define e where "e = w0 - p"
  define nrm where "nrm = sqrt (q\<^sup>2 + e\<^sup>2)"
  have d0: "0 \<le> d" by (simp add: d_def)
  have d2: "d * d = (p - r)\<^sup>2 + 4 * q\<^sup>2" by (simp add: d_def)
  have char: "e * (w0 - r) = q * q"
  proof -
    have "e * (w0 - r) = (d * d - (p - r)\<^sup>2) / 4"
      by (simp add: e_def w0_def power2_eq_square field_simps)
    also have "\<dots> = q * q" by (simp add: d2 power2_eq_square)
    finally show ?thesis .
  qed
  have pos: "0 < q\<^sup>2 + e\<^sup>2" using False by (simp add: sum_power2_gt_zero_iff)
  then have "0 < nrm" by (simp only: nrm_def real_sqrt_gt_0_iff)
  then have n0: "nrm \<noteq> 0" by simp
  have "nrm * nrm = q\<^sup>2 + e\<^sup>2"
    unfolding nrm_def using pos by (simp only: real_sqrt_mult_self abs_of_pos)
  then have n2: "nrm * nrm = q * q + e * e" by (simp only: power2_eq_square)
  have w: "w = (w0, p + r - w0)"
    using assms False by (auto simp: jacobi_def Let_def d_def w0_def field_simps)
  have "Y = ((q / nrm, - (w0 - p) / nrm), ((w0 - p) / nrm, q / nrm))"
    using assms False by (auto simp: jacobi_def Let_def nrm_def e_def w0_def d_def)
  then have Y: "col0 Y = (q / nrm, e / nrm)" "col1 Y = (- e / nrm, q / nrm)"
    by (simp_all add: col0_def col1_def e_def)
  have c8: "fst w \<le> snd w" using d0 by (simp add: w w0_def field_simps)
  have i1: "p * (q * q) + q * (2 * q * e) + r * (e * e) = w0 * (q * q + e * e)"
    using char by (simp add: e_def) algebra
  have i2: "p * (q * - e) + q * (q * q - e * e) + r * (e * q) = 0"
    using char by (simp add: e_def) algebra
  have i3: "p * (e * e) - q * (2 * e * q) + r * (q * q) = (p + r - w0) * (q * q + e * e)"
    using char by (simp add: e_def) algebra
  have "bil2 (p, q, r) (col0 Y) (col0 Y) = (p * (q * q) + q * (2 * q * e) + r * (e * e)) / (nrm * nrm)"
    using n0 by (simp add: Y field_simps)
  then have c9: "bil2 (p, q, r) (col0 Y) (col0 Y) = fst w"
    using n0 by (simp only: i1 n2[symmetric]) (simp add: w)
  have "bil2 (p, q, r) (col0 Y) (col1 Y) = (p * (q * - e) + q * (q * q - e * e) + r * (e * q)) / (nrm * nrm)"
    using n0 by (simp add: Y field_simps)
  then have c10: "bil2 (p, q, r) (col0 Y) (col1 Y) = 0"
    by (simp only: i2)
  have "bil2 (p, q, r) (col1 Y) (col1 Y) = (p * (e * e) - q * (2 * e * q) + r * (q * q)) / (nrm * nrm)"
    using n0 by (simp add: Y field_simps)
  then have c11: "bil2 (p, q, r) (col1 Y) (col1 Y) = snd w"
    using n0 by (simp only: i3 n2[symmetric]) (simp add: w)
  have "bil2 (1, 0, 1) (col0 Y) (col0 Y) = (q * q + e * e) / (nrm * nrm)"
    using n0 by (simp add: Y field_simps)
  then have c12: "bil2 (1, 0, 1) (col0 Y) (col0 Y) = 1" using n0 by (simp only: n2[symmetric]) simp
  have c13: "bil2 (1, 0, 1) (col0 Y) (col1 Y) = 0" by (simp add: Y)
  have "bil2 (1, 0, 1) (col1 Y) (col1 Y) = (q * q + e * e) / (nrm * nrm)"
    using n0 by (simp add: Y field_simps)
  then have c14: "bil2 (1, 0, 1) (col1 Y) (col1 Y) = 1" using n0 by (simp only: n2[symmetric]) simp
  show ?thesis by (intro conjI) (fact c8 c9 c10 c11 c12 c13 c14)+
qed

lemma eigh_ref_sound: "sound eigh_ref"
  unfolding sound_def
proof (intro allI impI)
  fix a b w V assume e: "eigh_ref a b = Inr (w, V)"
  obtain b00 b10 b11 where b: "lower b = (b00, b10, b11)" by (metis prod_cases3)
  have pd: "0 < b00" "0 < b00 * b11 - b10 * b10"
    using e by (auto simp: eigh_ref_def pd2_def b split: if_splits)
  define g where "g = chol0 (lower b)"
  define h where "h = chol1 (lower b)"
  define c where "c = (bil2 (lower a) g g, bil2 (lower a) g h, bil2 (lower a) h h)"
  obtain w' Y where j: "jacobi c = (w', Y)" by (cases "jacobi c")
  have V: "w = w'" "col0 V = comb g h (col0 Y)" "col1 V = comb g h (col1 Y)"
    using e j by (auto simp: eigh_ref_def Let_def g_def h_def c_def col0_def col1_def split: if_splits)
  have gb: "(bil2 (lower b) g g, bil2 (lower b) g h, bil2 (lower b) h h) = (1, 0, 1)"
    using chol_orthonormal[OF pd] by (simp add: g_def h_def b)
  show "decomposes a b w V"
    unfolding decomposes_def V bil2_comb gb c_def[symmetric]
    using jacobi_diag[OF j[unfolded c_def]] by (simp add: c_def)
qed

lemma lower_scale2: "lower (scale2 k m) = (k * fst (lower m), k * fst (snd (lower m)), k * snd (snd (lower m)))"
  by (simp add: lower_def scale2_def)

lemma pd2_scale2:
  assumes "0 < k"
  shows "pd2 (scale2 k b) \<longleftrightarrow> pd2 b"
proof -
  obtain b00 b10 b11 where b: "lower b = (b00, b10, b11)" by (metis prod_cases3)
  have "k * b00 * (k * b11) - k * b10 * (k * b10) = (k * k) * (b00 * b11 - b10 * b10)"
    by (simp add: algebra_simps)
  then show ?thesis
    using assms by (simp add: pd2_def lower_scale2 b zero_less_mult_iff)
qed

lemma chol0_scale:
  assumes "0 < k"
  shows "chol0 (k * b00, k * b10, k * b11) = scale_pair (1 / sqrt k) (chol0 (b00, b10, b11))"
  by (simp add: chol0_def scale_pair_def real_sqrt_mult)

lemma chol1_scale:
  assumes "0 < k" "0 < b00" "0 < b00 * b11 - b10 * b10"
  shows "chol1 (k * b00, k * b10, k * b11) = scale_pair (1 / sqrt k) (chol1 (b00, b10, b11))"
proof -
  let ?d = "b00 * b11 - b10 * b10"
  have e: "k * b00 * (k * b11) - k * b10 * (k * b10) = (k * k) * ?d"
    by (simp add: algebra_simps)
  have k: "sqrt k * sqrt k = k" "sqrt k \<noteq> 0" "sqrt (k * k) = k" using assms(1) by simp_all
  have s: "sqrt b00 \<noteq> 0" "sqrt ?d \<noteq> 0" using assms(2,3) by simp_all
  have l1: "sqrt (k * b00) = sqrt k * sqrt b00" by (rule real_sqrt_mult)
  have "sqrt ((k * k) * ?d) = sqrt (k * k) * sqrt ?d" by (rule real_sqrt_mult)
  then have l2: "sqrt (k * b00 * (k * b11) - k * b10 * (k * b10)) = k * sqrt ?d"
    by (simp only: e k(3))
  have kk: "k * sqrt ?d = sqrt k * (sqrt k * sqrt ?d)"
    using arg_cong[OF k(1), of "\<lambda>z. z * sqrt ?d"] by (simp only: mult.assoc)
  have f1: "- (k * b10) / (sqrt k * sqrt b00 * (k * sqrt ?d)) =
        1 / sqrt k * (- b10 / (sqrt b00 * sqrt ?d))"
    using k(2) s assms(1) by (simp add: field_simps)
  have f2: "sqrt k * sqrt b00 / (k * sqrt ?d) = 1 / sqrt k * (sqrt b00 / sqrt ?d)"
    unfolding kk using k(2) s by (simp add: field_simps)
  show ?thesis
    unfolding chol1_def scale_pair_def prod.case fst_conv snd_conv l1 l2
    by (simp only: f1 f2)
qed

lemma bil2_scale:
  assumes "0 < k"
  shows "bil2 (k * m00, k * m10, k * m11) (scale_pair (1 / sqrt k) g) (scale_pair (1 / sqrt k) h) =
     bil2 (m00, m10, m11) g h"
proof -
  obtain g0 g1 h0 h1 where gh: "g = (g0, g1)" "h = (h0, h1)" by (cases g; cases h) blast
  have t: "k * (1 / sqrt k * (1 / sqrt k)) = 1" using assms by (simp add: field_simps)
  have "bil2 (k * m00, k * m10, k * m11) (scale_pair (1 / sqrt k) g) (scale_pair (1 / sqrt k) h) =
     (k * (1 / sqrt k * (1 / sqrt k))) * bil2 (m00, m10, m11) g h"
    unfolding gh scale_pair_def fst_conv snd_conv bil2.simps by (simp only: algebra_simps)
  then show ?thesis by (simp only: t mult_1)
qed

lemma comb_scale: "comb (scale_pair t g) (scale_pair t h) y = scale_pair t (comb g h y)"
  by (simp add: comb_def scale_pair_def algebra_simps)

lemma eigh_ref_pd:
  assumes "pd2 b" "lower a = (a00, a10, a11)" "lower b = (b00, b10, b11)"
    and "jacobi (bil2 (a00, a10, a11) g g, bil2 (a00, a10, a11) g h, bil2 (a00, a10, a11) h h) = (w, Y)"
    and "chol0 (b00, b10, b11) = g" "chol1 (b00, b10, b11) = h"
  shows "eigh_ref a b = Inr (w, ((fst (comb g h (col0 Y)), fst (comb g h (col1 Y))),
                                 (snd (comb g h (col0 Y)), snd (comb g h (col1 Y)))))"
  using assms by (simp add: eigh_ref_def Let_def)

lemma eigh_ref_equivariant: "equivariant eigh_ref"
  unfolding equivariant_def
proof (intro allI impI)
  fix k :: real and a b :: mat2
  assume k: "0 < k"
  obtain a00 a10 a11 where a: "lower a = (a00, a10, a11)" by (metis prod_cases3)
  obtain b00 b10 b11 where b: "lower b = (b00, b10, b11)" by (metis prod_cases3)
  show "eigh_ref (scale2 k a) (scale2 k b) =
          (case eigh_ref a b of Inl e \<Rightarrow> Inl e | Inr (w, V) \<Rightarrow> Inr (w, scale2 (1 / sqrt k) V))"
  proof (cases "pd2 b")
    case False
    then show ?thesis using pd2_scale2[OF k, of b] by (simp add: eigh_ref_def)
  next
    case True
    then have pd: "0 < b00" "0 < b00 * b11 - b10 * b10" by (simp_all add: pd2_def b)
    let ?g = "chol0 (b00, b10, b11)" and ?h = "chol1 (b00, b10, b11)"
    let ?t = "1 / sqrt k"
    let ?c = "(bil2 (a00, a10, a11) ?g ?g, bil2 (a00, a10, a11) ?g ?h, bil2 (a00, a10, a11) ?h ?h)"
    obtain w Y where j: "jacobi ?c = (w, Y)" by (cases "jacobi ?c")
    have l: "eigh_ref a b = Inr (w, ((fst (comb ?g ?h (col0 Y)), fst (comb ?g ?h (col1 Y))),
                                     (snd (comb ?g ?h (col0 Y)), snd (comb ?g ?h (col1 Y)))))"
      using True a b j refl refl by (rule eigh_ref_pd)
    have ka: "lower (scale2 k a) = (k * a00, k * a10, k * a11)" by (simp add: lower_scale2 a)
    have kb: "lower (scale2 k b) = (k * b00, k * b10, k * b11)" by (simp add: lower_scale2 b)
    have j': "jacobi (bil2 (k * a00, k * a10, k * a11) (scale_pair ?t ?g) (scale_pair ?t ?g),
                      bil2 (k * a00, k * a10, k * a11) (scale_pair ?t ?g) (scale_pair ?t ?h),
                      bil2 (k * a00, k * a10, k * a11) (scale_pair ?t ?h) (scale_pair ?t ?h)) = (w, Y)"
      by (simp only: bil2_scale[OF k] j)
    have r: "eigh_ref (scale2 k a) (scale2 k b) =
       Inr (w, ((fst (comb (scale_pair ?t ?g) (scale_pair ?t ?h) (col0 Y)),
                 fst (comb (scale_pair ?t ?g) (scale_pair ?t ?h) (col1 Y))),
                (snd (comb (scale_pair ?t ?g) (scale_pair ?t ?h) (col0 Y)),
                 snd (comb (scale_pair ?t ?g) (scale_pair ?t ?h) (col1 Y)))))"
      using True[folded pd2_scale2[OF k, of b]] ka kb j' chol0_scale[OF k] chol1_scale[OF k pd]
      by (rule eigh_ref_pd)
    show ?thesis unfolding l r comb_scale by (simp add: scale2_def scale_pair_def)
  qed
qed

lemma eigh_ref_accepts: "accepts eigh_ref"
  by (simp add: accepts_def eigh_ref_def Let_def split: prod.splits)

section \<open>The small matrices of the selector\<close>

lemma smallM_smallA: "smallM Op w x = smallA Op w x"
  by (simp add: smallM_def smallA_def)

lemma lower_smallA: "lower (smallA Op w x) = (form Op x x, form Op w x, form Op w w)"
  by (simp add: lower_def smallA_def form_def Let_def)

lemma small_form:
  assumes "square n Op" "symmetric Op" "length x = n" "length w = n"
  shows "form Op (combine (a, b) x w) (combine (c, d) x w) =
         bil2 (lower (smallA Op w x)) (a, b) (c, d)"
proof -
  have "form Op x w = form Op w x" using assms by (rule form_symmetric)
  then show ?thesis
    using assms(3,4) by (simp add: combine_def form_comb lower_smallA algebra_simps)
qed

lemma smallA_symmetric:
  assumes "square n Op" "symmetric Op" "length x = n" "length w = n"
  shows "snd (fst (smallA Op w x)) = fst (snd (smallA Op w x))"
  using form_symmetric[OF assms] by (simp add: smallA_def Let_def form_def)

lemma smallA_scale: "smallA Op (vscale c w) (vscale c x) = scale2 (c * c) (smallA Op w x)"
  by (simp add: smallA_def scale2_def Let_def mult_vscale dot_vscale_left dot_vscale_right
      algebra_simps)

lemma independent_nonzero:
  assumes "independent n x w" "length x = n" "length w = n"
  shows "x \<noteq> replicate n 0"
proof
  assume "x = replicate n 0"
  then have "vadd (vscale 1 x) (vscale 0 w) = replicate n 0"
    using combine_unit[of x w] assms(2,3) by (simp add: combine_def)
  with assms(1) show False unfolding independent_def by fastforce
qed

lemma small_pd:
  assumes "square n M" "symmetric M" "pos_def n M"
    and "length x = n" "length w = n" "independent n x w"
  shows "pd2 (smallA M w x)"
proof -
  let ?b00 = "form M x x" and ?b10 = "form M w x" and ?b11 = "form M w w"
  have x: "x \<noteq> replicate n 0" using assms(6,4,5) by (rule independent_nonzero)
  have b00: "0 < ?b00" using assms(3,4) x by (simp add: pos_def_def form_def)
  let ?y = "combine (- ?b10, ?b00) x w"
  have "?y \<noteq> replicate n 0"
  proof
    assume "?y = replicate n 0"
    with assms(6) have "?b00 = 0" unfolding independent_def combine_def by fastforce
    with b00 show False by simp
  qed
  moreover have "length ?y = n" using assms(4,5) by (rule length_combine)
  ultimately have "0 < form M ?y ?y" using assms(3) by (simp add: pos_def_def form_def)
  also have "form M ?y ?y = bil2 (lower (smallA M w x)) (- ?b10, ?b00) (- ?b10, ?b00)"
    using assms(1,2,4,5) by (rule small_form)
  also have "\<dots> = ?b00 * (?b00 * ?b11 - ?b10 * ?b10)"
    by (simp add: lower_smallA algebra_simps)
  finally have "0 < ?b00 * ?b11 - ?b10 * ?b10" using b00 by (simp add: zero_less_mult_iff)
  with b00 show ?thesis by (simp add: pd2_def lower_smallA)
qed

lemma dependent_cases:
  assumes "length x = n" "length w = n" "\<not> independent n x w"
  shows "(\<exists>c. w = vscale c x) \<or> (\<exists>c. x = vscale c w)"
proof -
  from assms(3) obtain a b where z: "vadd (vscale a x) (vscale b w) = replicate n 0"
    and ab: "a \<noteq> 0 \<or> b \<noteq> 0"
    unfolding independent_def by blast
  have eq: "a * x ! i + b * w ! i = 0" if "i < n" for i
    using combine_nth[OF assms(1,2) that, of a b] that by (simp add: z)
  show ?thesis
  proof (cases "b = 0")
    case False
    have "w = vscale (- a / b) x"
    proof (rule nth_equalityI)
      show "length w = length (vscale (- a / b) x)" using assms(1,2) by simp
      fix i assume "i < length w"
      then have i: "i < n" using assms(2) by simp
      from eq[OF i] False have "w ! i = - a / b * x ! i" by (simp add: field_simps)
      then show "w ! i = vscale (- a / b) x ! i" using i assms(1) by (simp add: vscale_def)
    qed
    then show ?thesis by blast
  next
    case True
    with ab have a: "a \<noteq> 0" by simp
    have "x = vscale 0 w"
    proof (rule nth_equalityI)
      show "length x = length (vscale 0 w)" using assms(1,2) by simp
      fix i assume "i < length x"
      then have i: "i < n" using assms(1) by simp
      from eq[OF i] True a have "x ! i = 0" by simp
      then show "x ! i = vscale 0 w ! i" using i assms(2) by (simp add: vscale_def)
    qed
    then show ?thesis by blast
  qed
qed

lemma small_dependent:
  assumes "(\<exists>c. w = vscale c x) \<or> (\<exists>c. x = vscale c w)"
  shows "\<not> pd2 (smallA Op w x)"
  using assms
proof
  assume "\<exists>c. w = vscale c x"
  then obtain c where "w = vscale c x" ..
  then show ?thesis
    by (simp add: pd2_def lower_smallA form_vscale_left form_vscale_right algebra_simps)
next
  assume "\<exists>c. x = vscale c w"
  then obtain c where "x = vscale c w" ..
  then show ?thesis
    by (simp add: pd2_def lower_smallA form_vscale_left form_vscale_right algebra_simps)
qed

lemma smallA_form:
  "smallA Op w x = ((form Op x x, form Op x w), (form Op w x, form Op w w))"
  by (simp add: smallA_def Let_def form_def)

lemma small_singular:
  assumes "(\<exists>c. w = vscale c x) \<or> (\<exists>c. x = vscale c w)"
  shows "det2 (smallA Op w x) = 0"
  using assms
proof
  assume "\<exists>c. w = vscale c x"
  then obtain c where "w = vscale c x" ..
  then show ?thesis
    by (simp add: smallA_form det2_def form_vscale_left form_vscale_right algebra_simps)
next
  assume "\<exists>c. x = vscale c w"
  then obtain c where "x = vscale c w" ..
  then show ?thesis
    by (simp add: smallA_form det2_def form_vscale_left form_vscale_right algebra_simps)
qed

lemma stepChoice_rr_done:
  assumes "stepChoice_rr eigh Op Mp w x = (Inr al, cs)"
  shows "\<exists>wv V. eigh (smallA Op w x) (smallA Mp w x) = Inr (wv, V) \<and> al = col0 V"
  using assms
  by (auto simp: stepChoice_rr_def smallM_smallA col0_def split: sum.splits)

text \<open>The Rayleigh--Ritz step does not increase the quotient.\<close>

lemma rayleigh_ritz_step:
  assumes "decomposes (smallA A w x) (smallA M w x) wv V"
    and "square n A" "symmetric A" "square n M" "symmetric M" "length x = n" "length w = n"
  shows "form M (combine (col0 V) x w) (combine (col0 V) x w) = 1"
    and "form A (combine (col0 V) x w) (combine (col0 V) x w) = fst wv"
    and "0 < form M x x"
    and "fst wv * form M x x \<le> form A x x"
proof -
  have c: "col0 V = (fst (col0 V), snd (col0 V))" by simp
  show "form M (combine (col0 V) x w) (combine (col0 V) x w) = 1"
    using small_form[OF assms(4,5,6,7), of "fst (col0 V)" "snd (col0 V)" "fst (col0 V)" "snd (col0 V)"]
      assms(1) by (simp add: decomposes_def)
  show "form A (combine (col0 V) x w) (combine (col0 V) x w) = fst wv"
    using small_form[OF assms(2,3,6,7), of "fst (col0 V)" "snd (col0 V)" "fst (col0 V)" "snd (col0 V)"]
      assms(1) by (simp add: decomposes_def)
  have "0 < bil2 (lower (smallA M w x)) (1, 0) (1, 0)"
    using assms(1) by (rule decomposes_pos) simp
  then show "0 < form M x x" by (simp add: lower_smallA)
  have "fst wv * bil2 (lower (smallA M w x)) (1, 0) (1, 0) \<le> bil2 (lower (smallA A w x)) (1, 0) (1, 0)"
    using assms(1) by (rule decomposes_min)
  then show "fst wv * form M x x \<le> form A x x" by (simp add: lower_smallA)
qed

lemma homogeneous_const: "homogeneous stepChoice_const"
  unfolding homogeneous_def
  by (intro allI impI exI[of _ 1]) (simp add: stepChoice_const_def scale_pair_def)

lemma homogeneous_rr:
  assumes "equivariant eigh"
  shows "homogeneous (stepChoice_rr eigh)"
  unfolding homogeneous_def
proof (intro allI impI)
  fix A M :: mat and w x :: vec and c :: real
  assume c: "c \<noteq> 0"
  then have "0 < c\<^sup>2" by simp
  then have cc: "0 < c * c" by (simp only: power2_eq_square)
  have s: "sqrt (c * c) = \<bar>c\<bar>" by simp
  have e: "eigh (scale2 (c * c) (smallA A w x)) (scale2 (c * c) (smallA M w x)) =
      (case eigh (smallA A w x) (smallA M w x) of Inl e \<Rightarrow> Inl e
       | Inr (wv, V) \<Rightarrow> Inr (wv, scale2 (1 / \<bar>c\<bar>) V))"
    using assms[unfolded equivariant_def, rule_format, OF cc] by (simp only: s)
  have "fst (stepChoice_rr eigh A M (vscale c w) (vscale c x)) =
             (case fst (stepChoice_rr eigh A M w x) of Inl e \<Rightarrow> Inl e
              | Inr al \<Rightarrow> Inr (scale_pair (1 / \<bar>c\<bar>) al))"
  proof (cases "eigh (smallA A w x) (smallA M w x)")
    case (Inl err)
    then show ?thesis
      using e by (simp add: stepChoice_rr_def smallM_smallA smallA_scale)
  next
    case (Inr r)
    obtain wv V where r: "r = (wv, V)" by (cases r)
    show ?thesis
      using e Inr
      by (simp add: stepChoice_rr_def smallM_smallA smallA_scale r scale2_def scale_pair_def)
  qed
  moreover have "1 / \<bar>c\<bar> \<noteq> 0" using c by simp
  ultimately show "\<exists>k. k \<noteq> 0 \<and> fst (stepChoice_rr eigh A M (vscale c w) (vscale c x)) =
             (case fst (stepChoice_rr eigh A M w x) of Inl e \<Rightarrow> Inl e
              | Inr al \<Rightarrow> Inr (scale_pair k al))"
    by (intro exI[of _ "1 / \<bar>c\<bar>"] conjI)
qed

section \<open>The driver loop, pass by pass\<close>

lemma form_code: "dot (mult Op x) x = form Op x x"
  by (simp add: form_def dot_commute)

lemma rayleigh_zero:
  assumes "form (M_mat s) (u0 s) (u0 s) = 0"
  shows "rayleigh s = Raised ZeroDivisionError
           (s\<lparr>Au0 := mult (A_mat s) (u0 s), Mu0 := mult (M_mat s) (u0 s),
              calls := calls s @ [Duplicate, MatMult, Duplicate, MatMult, VecDot, VecDot]\<rparr>)"
  using assms by (simp add: rayleigh_def Let_def form_code)

lemma rayleigh_nonzero:
  assumes "form (M_mat s) (u0 s) (u0 s) \<noteq> 0"
  shows "rayleigh s = Done
           (s\<lparr>Au0 := mult (A_mat s) (u0 s), Mu0 := mult (M_mat s) (u0 s),
              rho := rayleigh_rho (A_mat s) (M_mat s) (u0 s),
              calls := calls s @ [Duplicate, MatMult, Duplicate, MatMult, VecDot, VecDot]\<rparr>)"
  using assms by (simp add: rayleigh_def Let_def form_code rayleigh_rho_def)

lemma update_frame:
  "A_mat (final (update sel s)) = A_mat s \<and> M_mat (final (update sel s)) = M_mat s \<and>
   pc (final (update sel s)) = pc s \<and> out (final (update sel s)) = out s"
  by (simp add: update_def Let_def split: prod.splits sum.splits)

lemma direction_frame:
  "A_mat (direction s) = A_mat s \<and> M_mat (direction s) = M_mat s \<and>
   pc (direction s) = pc s \<and> out (direction s) = out s \<and> u0 (direction s) = u0 s"
  by (simp add: direction_def Let_def)

lemma pass_zero:
  assumes "form (M_mat s) (u0 s) (u0 s) = 0"
  shows "\<exists>s'. pass sel it s = Raised ZeroDivisionError s' \<and> out s' = out s \<and>
           A_mat s' = A_mat s \<and> M_mat s' = M_mat s \<and> pc s' = pc s"
  using assms by (simp add: pass_def rayleigh_zero)

lemma pass_nonzero:
  assumes "form (M_mat s) (u0 s) (u0 s) \<noteq> 0"
  shows "out (final (pass sel it s)) = out s @ [(it, rayleigh_rho (A_mat s) (M_mat s) (u0 s) / pi\<^sup>2)] \<and>
         A_mat (final (pass sel it s)) = A_mat s \<and> M_mat (final (pass sel it s)) = M_mat s \<and>
         pc (final (pass sel it s)) = pc s"
  using assms by (simp add: pass_def rayleigh_nonzero update_frame direction_frame emit_def)

lemma pass_frame:
  "A_mat (final (pass sel it s)) = A_mat s \<and> M_mat (final (pass sel it s)) = M_mat s \<and>
   pc (final (pass sel it s)) = pc s"
proof (cases "form (M_mat s) (u0 s) (u0 s) = 0")
  case True
  from pass_zero[OF True, of sel it] show ?thesis by auto
next
  case False
  from pass_nonzero[OF False, of sel it] show ?thesis by simp
qed

lemma pass_out:
  "(\<exists>v. out (final (pass sel it s)) = out s @ [(it, v)]) \<or>
   (out (final (pass sel it s)) = out s \<and> raised (pass sel it s) \<noteq> None)"
proof (cases "form (M_mat s) (u0 s) (u0 s) = 0")
  case True
  from pass_zero[OF True, of sel it] show ?thesis by auto
next
  case False
  from pass_nonzero[OF False, of sel it] show ?thesis by simp
qed

lemma loop_frame:
  "A_mat (final (loop sel its s)) = A_mat s \<and> M_mat (final (loop sel its s)) = M_mat s \<and>
   pc (final (loop sel its s)) = pc s"
proof (induction its arbitrary: s)
  case Nil
  show ?case by simp
next
  case (Cons it its)
  show ?case
  proof (cases "pass sel it s")
    case (Done s')
    with Cons[of s'] pass_frame[of sel it s] show ?thesis by simp
  next
    case (Raised e s')
    with pass_frame[of sel it s] show ?thesis by simp
  qed
qed

lemma loop_out:
  "\<exists>k. k \<le> length its \<and>
      map fst (out (final (loop sel its s))) = map fst (out s) @ take k its \<and>
      (raised (loop sel its s) = None \<longrightarrow> k = length its)"
proof (induction its arbitrary: s)
  case Nil
  show ?case by simp
next
  case (Cons it its)
  show ?case
  proof (cases "pass sel it s")
    case (Done s')
    then have l: "loop sel (it # its) s = loop sel its s'" by simp
    have "raised (pass sel it s) = None" by (simp add: Done)
    with pass_out[of sel it s] have "\<exists>v. out (final (pass sel it s)) = out s @ [(it, v)]"
      by simp
    then obtain v where "out (final (pass sel it s)) = out s @ [(it, v)]" ..
    then have v: "out s' = out s @ [(it, v)]" by (simp add: Done)
    from Cons[of s'] obtain k where "k \<le> length its \<and>
      map fst (out (final (loop sel its s'))) = map fst (out s') @ take k its \<and>
      (raised (loop sel its s') = None \<longrightarrow> k = length its)" ..
    then have k: "k \<le> length its"
      "map fst (out (final (loop sel its s'))) = map fst (out s') @ take k its"
      "raised (loop sel its s') = None \<longrightarrow> k = length its" by simp_all
    have "Suc k \<le> length (it # its)" using k(1) by simp
    moreover have "map fst (out (final (loop sel (it # its) s))) =
        map fst (out s) @ take (Suc k) (it # its)"
      unfolding l k(2) v by simp
    moreover have "raised (loop sel (it # its) s) = None \<longrightarrow> Suc k = length (it # its)"
      unfolding l using k(3) by simp
    ultimately show ?thesis by (intro exI[of _ "Suc k"] conjI)
  next
    case (Raised e s')
    then have l: "loop sel (it # its) s = Raised e s'" by simp
    have f: "final (pass sel it s) = s'" by (simp add: Raised)
    have r: "raised (loop sel (it # its) s) \<noteq> None" unfolding l by simp
    from pass_out[of sel it s]
    have "(\<exists>v. out s' = out s @ [(it, v)]) \<or> out s' = out s"
      unfolding f by (rule disj_forward) simp_all
    then show ?thesis
    proof
      assume "\<exists>v. out s' = out s @ [(it, v)]"
      then obtain v where "out s' = out s @ [(it, v)]" ..
      then have "map fst (out (final (loop sel (it # its) s))) =
          map fst (out s) @ take (Suc 0) (it # its)"
        unfolding l by simp
      with r show ?thesis unfolding l by (intro exI[of _ "Suc 0"]) simp
    next
      assume "out s' = out s"
      then have "map fst (out (final (loop sel (it # its) s))) = map fst (out s) @ take 0 (it # its)"
        unfolding l by simp
      with r show ?thesis unfolding l by (intro exI[of _ 0]) simp
    qed
  qed
qed

lemma init_simps [simp]:
  "A_mat (init A M P x0) = A" "M_mat (init A M P x0) = M" "pc (init A M P x0) = P"
  "u0 (init A M P x0) = x0" "out (init A M P x0) = []"
  by (simp_all add: init_def)

lemma loop_out_append: "\<exists>evs. out (final (loop sel its s)) = out s @ evs"
proof (induction its arbitrary: s)
  case Nil
  show ?case by simp
next
  case (Cons it its)
  show ?case
  proof (cases "pass sel it s")
    case (Done s')
    with pass_out[of sel it s] Cons[of s'] show ?thesis by auto
  next
    case (Raised e s')
    with pass_out[of sel it s] show ?thesis by auto
  qed
qed

lemma loop_first:
  "take 1 (out (final (loop sel (it # its) (init A M P x0)))) =
     (if form M x0 x0 = 0 then [] else [(it, rayleigh_rho A M x0 / pi\<^sup>2)])"
proof (cases "form M x0 x0 = 0")
  case True
  with pass_zero[of "init A M P x0" sel it] show ?thesis by auto
next
  case False
  then have nz: "form (M_mat (init A M P x0)) (u0 (init A M P x0)) (u0 (init A M P x0)) \<noteq> 0"
    by simp
  have o: "out (final (pass sel it (init A M P x0))) = [(it, rayleigh_rho A M x0 / pi\<^sup>2)]"
    using pass_nonzero[OF nz, of sel it] by simp
  show ?thesis
  proof (cases "pass sel it (init A M P x0)")
    case (Done s')
    with o loop_out_append[of sel its s'] False show ?thesis by auto
  next
    case (Raised e s')
    with o False show ?thesis by simp
  qed
qed

lemma loop_Cons:
  "loop sel (it # its) s =
     (if raised (pass sel it s) = None then loop sel its (final (pass sel it s)) else pass sel it s)"
  by (cases "pass sel it s") simp_all

text \<open>What a pass does once the division has succeeded.\<close>

lemma pass_update:
  assumes "form (M_mat s) (u0 s) (u0 s) \<noteq> 0"
  shows "\<exists>s1. pass sel it s = update sel s1 \<and> A_mat s1 = A_mat s \<and> M_mat s1 = M_mat s \<and>
           u0 s1 = u0 s \<and> w_vec s1 = computed_direction (pc s) (A_mat s) (M_mat s) (u0 s)"
proof -
  let ?s0 = "s\<lparr>Au0 := mult (A_mat s) (u0 s), Mu0 := mult (M_mat s) (u0 s),
              rho := rayleigh_rho (A_mat s) (M_mat s) (u0 s),
              calls := calls s @ [Duplicate, MatMult, Duplicate, MatMult, VecDot, VecDot]\<rparr>"
  let ?s1 = "direction (emit it ?s0)"
  have "pass sel it s = update sel ?s1"
    by (simp add: pass_def rayleigh_nonzero[OF assms])
  moreover have "A_mat ?s1 = A_mat s" "M_mat ?s1 = M_mat s" "u0 ?s1 = u0 s"
    by (simp_all add: direction_def emit_def Let_def)
  moreover have "w_vec ?s1 = computed_direction (pc s) (A_mat s) (M_mat s) (u0 s)"
    by (simp add: direction_def emit_def Let_def computed_direction_def)
  ultimately show ?thesis by (intro exI[of _ ?s1] conjI)
qed

lemma update_done:
  assumes "update sel s1 = Done s'"
  shows "\<exists>al cs. sel (A_mat s1) (M_mat s1) (w_vec s1) (u0 s1) = (Inr al, cs) \<and>
           u0 s' = combine al (u0 s1) (w_vec s1)"
  using assms
  by (cases "sel (A_mat s1) (M_mat s1) (w_vec s1) (u0 s1)")
     (auto simp: update_def Let_def combine_def split: sum.splits)

lemma update_raised:
  "raised (update sel s1) =
     (case fst (sel (A_mat s1) (M_mat s1) (w_vec s1) (u0 s1)) of Inl e \<Rightarrow> Some e | Inr al \<Rightarrow> None)"
  by (cases "sel (A_mat s1) (M_mat s1) (w_vec s1) (u0 s1)")
     (simp add: update_def Let_def split: sum.splits)

lemma update_u0:
  "u0 (final (update sel s1)) =
     (case fst (sel (A_mat s1) (M_mat s1) (w_vec s1) (u0 s1)) of
        Inl e \<Rightarrow> u0 s1 | Inr al \<Rightarrow> combine al (u0 s1) (w_vec s1))"
  by (cases "sel (A_mat s1) (M_mat s1) (w_vec s1) (u0 s1)")
     (simp add: update_def Let_def combine_def split: sum.splits)

lemma pass_done:
  assumes "pass sel it s = Done s'"
  shows "form (M_mat s) (u0 s) (u0 s) \<noteq> 0 \<and>
         (\<exists>al cs. sel (A_mat s) (M_mat s) (computed_direction (pc s) (A_mat s) (M_mat s) (u0 s)) (u0 s)
                    = (Inr al, cs) \<and>
                  u0 s' = combine al (u0 s) (computed_direction (pc s) (A_mat s) (M_mat s) (u0 s)))"
proof -
  have nz: "form (M_mat s) (u0 s) (u0 s) \<noteq> 0"
  proof
    assume "form (M_mat s) (u0 s) (u0 s) = 0"
    from pass_zero[OF this, of sel it] assms show False by simp
  qed
  from pass_update[OF nz, of sel it] obtain s1 where s1: "pass sel it s = update sel s1 \<and>
    A_mat s1 = A_mat s \<and> M_mat s1 = M_mat s \<and> u0 s1 = u0 s \<and>
    w_vec s1 = computed_direction (pc s) (A_mat s) (M_mat s) (u0 s)" ..
  then have "update sel s1 = Done s'" using assms by simp
  from update_done[OF this] s1 nz show ?thesis by simp
qed

lemma pass_nz:
  assumes "form (M_mat s) (u0 s) (u0 s) \<noteq> 0"
  shows "raised (pass sel it s) =
           (case fst (sel (A_mat s) (M_mat s) (computed_direction (pc s) (A_mat s) (M_mat s) (u0 s)) (u0 s))
            of Inl e \<Rightarrow> Some e | Inr al \<Rightarrow> None)"
    and "u0 (final (pass sel it s)) =
           (case fst (sel (A_mat s) (M_mat s) (computed_direction (pc s) (A_mat s) (M_mat s) (u0 s)) (u0 s))
            of Inl e \<Rightarrow> u0 s
             | Inr al \<Rightarrow> combine al (u0 s) (computed_direction (pc s) (A_mat s) (M_mat s) (u0 s)))"
proof -
  from pass_update[OF assms, of sel it] obtain s1 where s1: "pass sel it s = update sel s1 \<and>
    A_mat s1 = A_mat s \<and> M_mat s1 = M_mat s \<and> u0 s1 = u0 s \<and>
    w_vec s1 = computed_direction (pc s) (A_mat s) (M_mat s) (u0 s)" ..
  then have e: "pass sel it s = update sel s1" "A_mat s1 = A_mat s" "M_mat s1 = M_mat s"
    "u0 s1 = u0 s" "w_vec s1 = computed_direction (pc s) (A_mat s) (M_mat s) (u0 s)"
    by simp_all
  show "raised (pass sel it s) =
           (case fst (sel (A_mat s) (M_mat s) (computed_direction (pc s) (A_mat s) (M_mat s) (u0 s)) (u0 s))
            of Inl e \<Rightarrow> Some e | Inr al \<Rightarrow> None)"
    using update_raised[of sel s1] by (simp only: e)
  show "u0 (final (pass sel it s)) =
           (case fst (sel (A_mat s) (M_mat s) (computed_direction (pc s) (A_mat s) (M_mat s) (u0 s)) (u0 s))
            of Inl e \<Rightarrow> u0 s
             | Inr al \<Rightarrow> combine al (u0 s) (computed_direction (pc s) (A_mat s) (M_mat s) (u0 s)))"
    using update_u0[of sel s1] by (simp only: e)
qed

lemma pass_rr_done:
  assumes "sound eigh"
    and "square n (A_mat s)" "symmetric (A_mat s)" "square n (M_mat s)" "symmetric (M_mat s)"
    and "length (pc s) = n" "length (u0 s) = n"
    and "pass (stepChoice_rr eigh) it s = Done s'"
  shows "length (u0 s') = n \<and>
         rayleigh_rho (A_mat s) (M_mat s) (u0 s') \<le> rayleigh_rho (A_mat s) (M_mat s) (u0 s)"
proof -
  let ?w = "computed_direction (pc s) (A_mat s) (M_mat s) (u0 s)"
  have lw: "length ?w = n" using assms(6) by (simp add: computed_direction_def)
  from pass_done[OF assms(8)] obtain al cs where
    al: "stepChoice_rr eigh (A_mat s) (M_mat s) ?w (u0 s) = (Inr al, cs)"
      "u0 s' = combine al (u0 s) ?w" by blast
  from stepChoice_rr_done[OF al(1)] obtain wv V where
    V: "eigh (smallA (A_mat s) ?w (u0 s)) (smallA (M_mat s) ?w (u0 s)) = Inr (wv, V)" "al = col0 V"
    by blast
  have d: "decomposes (smallA (A_mat s) ?w (u0 s)) (smallA (M_mat s) ?w (u0 s)) wv V"
    using assms(1)[unfolded sound_def, rule_format, OF V(1)] .
  note st = rayleigh_ritz_step[OF d assms(2,3,4,5,7) lw]
  have "rayleigh_rho (A_mat s) (M_mat s) (u0 s') = fst wv"
    by (simp add: rayleigh_rho_def al(2) V(2) st(1,2))
  moreover have "fst wv \<le> rayleigh_rho (A_mat s) (M_mat s) (u0 s)"
    using st(3,4) by (simp add: rayleigh_rho_def pos_le_divide_eq)
  moreover have "length (u0 s') = n"
    using assms(7) lw by (simp add: al(2) length_combine)
  ultimately show ?thesis by simp
qed

lemma loop_rr_monotone:
  assumes "sound eigh"
    and "square n (A_mat s)" "symmetric (A_mat s)" "square n (M_mat s)" "symmetric (M_mat s)"
    and "length (pc s) = n" "length (u0 s) = n"
  shows "\<exists>evs. out (final (loop (stepChoice_rr eigh) its s)) = out s @ evs \<and>
           nonincreasing (map snd evs) \<and>
           (\<forall>e\<in>set evs. snd e \<le> rayleigh_rho (A_mat s) (M_mat s) (u0 s) / pi\<^sup>2)"
  using assms(2-)
proof (induction its arbitrary: s)
  case Nil
  show ?case by (simp add: nonincreasing_def)
next
  case (Cons it its)
  let ?sel = "stepChoice_rr eigh"
  let ?q = "rayleigh_rho (A_mat s) (M_mat s) (u0 s)"
  show ?case
  proof (cases "form (M_mat s) (u0 s) (u0 s) = 0")
    case True
    from pass_zero[OF True, of ?sel it] obtain s' where
      "pass ?sel it s = Raised ZeroDivisionError s' \<and> out s' = out s \<and>
       A_mat s' = A_mat s \<and> M_mat s' = M_mat s \<and> pc s' = pc s" ..
    then have "out (final (loop ?sel (it # its) s)) = out s @ []" by simp
    then show ?thesis by (intro exI[of _ "[]"]) (simp add: nonincreasing_def)
  next
    case False
    note p = pass_nonzero[OF False, of ?sel it]
    show ?thesis
    proof (cases "pass ?sel it s")
      case (Raised e s')
      then have "out (final (loop ?sel (it # its) s)) = out s @ [(it, ?q / pi\<^sup>2)]"
        using p by simp
      then show ?thesis by (intro exI[of _ "[(it, ?q / pi\<^sup>2)]"]) (simp add: nonincreasing_def)
    next
      case (Done s')
      then have fr: "A_mat s' = A_mat s" "M_mat s' = M_mat s" "pc s' = pc s"
        and o: "out s' = out s @ [(it, ?q / pi\<^sup>2)]"
        using p by simp_all
      from pass_rr_done[OF assms(1) Cons.prems Done]
      have len: "length (u0 s') = n" and le: "rayleigh_rho (A_mat s) (M_mat s) (u0 s') \<le> ?q"
        by simp_all
      have "\<exists>evs. out (final (loop ?sel its s')) = out s' @ evs \<and>
           nonincreasing (map snd evs) \<and>
           (\<forall>e\<in>set evs. snd e \<le> rayleigh_rho (A_mat s') (M_mat s') (u0 s') / pi\<^sup>2)"
        using Cons.prems len by (intro Cons.IH) (simp_all add: fr)
      then obtain evs where evs: "out (final (loop ?sel its s')) = out s' @ evs \<and>
           nonincreasing (map snd evs) \<and>
           (\<forall>e\<in>set evs. snd e \<le> rayleigh_rho (A_mat s') (M_mat s') (u0 s') / pi\<^sup>2)" ..
      have b: "snd e \<le> ?q / pi\<^sup>2" if "e \<in> set evs" for e
      proof -
        have "snd e \<le> rayleigh_rho (A_mat s) (M_mat s) (u0 s') / pi\<^sup>2"
          using evs that by (simp add: fr)
        also have "\<dots> \<le> ?q / pi\<^sup>2" using le by (simp add: divide_right_mono)
        finally show ?thesis .
      qed
      have "out (final (loop ?sel (it # its) s)) = out s @ ((it, ?q / pi\<^sup>2) # evs)"
        using Done evs o by simp
      moreover have "nonincreasing (map snd ((it, ?q / pi\<^sup>2) # evs))"
        using evs b by (simp add: nonincreasing_def)
      moreover have "\<forall>e\<in>set ((it, ?q / pi\<^sup>2) # evs). snd e \<le> ?q / pi\<^sup>2"
        using b by simp
      ultimately show ?thesis by (intro exI[of _ "(it, ?q / pi\<^sup>2) # evs"] conjI)
    qed
  qed
qed

lemma pass_scaled:
  assumes "homogeneous sel" "scaled s t"
  shows "raised (pass sel it t) = raised (pass sel it s) \<and>
         out (final (pass sel it t)) = out (final (pass sel it s)) \<and>
         (raised (pass sel it s) = None \<longrightarrow> scaled (final (pass sel it s)) (final (pass sel it t)))"
proof -
  from assms(2) obtain c where c: "c \<noteq> 0" "u0 t = vscale c (u0 s)"
    and fr: "A_mat t = A_mat s" "M_mat t = M_mat s" "pc t = pc s" "out t = out s"
    unfolding scaled_def by (elim conjE exE)
  let ?A = "A_mat s" and ?M = "M_mat s" and ?P = "pc s" and ?x = "u0 s"
  let ?w = "computed_direction ?P ?A ?M ?x"
  have ft: "form (M_mat t) (u0 t) (u0 t) = (c * c) * form ?M ?x ?x"
    by (simp add: fr c(2) form_scale)
  show ?thesis
  proof (cases "form ?M ?x ?x = 0")
    case True
    then have Tt: "form (M_mat t) (u0 t) (u0 t) = 0" by (simp add: ft)
    from pass_zero[OF True, of sel it] obtain s' where
      s': "pass sel it s = Raised ZeroDivisionError s' \<and> out s' = out s \<and>
           A_mat s' = A_mat s \<and> M_mat s' = M_mat s \<and> pc s' = pc s" ..
    from pass_zero[OF Tt, of sel it] obtain t' where
      t': "pass sel it t = Raised ZeroDivisionError t' \<and> out t' = out t \<and>
           A_mat t' = A_mat t \<and> M_mat t' = M_mat t \<and> pc t' = pc t" ..
    from s' t' show ?thesis by (simp add: fr)
  next
    case False
    then have Ft: "form (M_mat t) (u0 t) (u0 t) \<noteq> 0" using c(1) by (simp add: ft)
    from assms(1)[unfolded homogeneous_def, rule_format, OF c(1), of ?A ?M ?w ?x]
    obtain k where k: "k \<noteq> 0"
      "fst (sel ?A ?M (vscale c ?w) (vscale c ?x)) =
         (case fst (sel ?A ?M ?w ?x) of Inl e \<Rightarrow> Inl e | Inr al \<Rightarrow> Inr (scale_pair k al))"
      by (elim exE conjE)
    have dt: "computed_direction (pc t) (A_mat t) (M_mat t) (u0 t) = vscale c ?w"
      using c(1) by (simp add: fr c(2) computed_direction_scale)
    have r: "raised (pass sel it t) = raised (pass sel it s)"
      unfolding pass_nz(1)[OF Ft] pass_nz(1)[OF False] dt
      by (simp add: fr c(2) k(2) split: sum.splits)
    have o: "out (final (pass sel it t)) = out (final (pass sel it s))"
      using pass_nonzero[OF Ft, of sel it] pass_nonzero[OF False, of sel it] c(1)
      by (simp add: fr c(2) rayleigh_rho_scale)
    have u: "raised (pass sel it s) = None \<longrightarrow>
             u0 (final (pass sel it t)) = vscale (k * c) (u0 (final (pass sel it s)))"
    proof (cases "fst (sel ?A ?M ?w ?x)")
      case (Inl err)
      then show ?thesis unfolding pass_nz(1)[OF False] by simp
    next
      case (Inr al)
      have "u0 (final (pass sel it t)) = combine (scale_pair k al) (vscale c ?x) (vscale c ?w)"
        unfolding pass_nz(2)[OF Ft] dt by (simp add: fr c(2) k(2) Inr)
      moreover have "u0 (final (pass sel it s)) = combine al ?x ?w"
        unfolding pass_nz(2)[OF False] by (simp add: Inr)
      ultimately show ?thesis by (simp only: combine_scale) simp
    qed
    have kc: "k * c \<noteq> 0" using k(1) c(1) by simp
    have "scaled (final (pass sel it s)) (final (pass sel it t))" if "raised (pass sel it s) = None"
      unfolding scaled_def
      using pass_frame[of sel it s] pass_frame[of sel it t] o u that kc
      by (intro conjI exI[of _ "k * c"]) (simp_all add: fr)
    with r o show ?thesis by simp
  qed
qed

lemma loop_scaled:
  assumes "homogeneous sel" "scaled s t"
  shows "raised (loop sel its t) = raised (loop sel its s) \<and>
         out (final (loop sel its t)) = out (final (loop sel its s))"
  using assms(2)
proof (induction its arbitrary: s t)
  case Nil
  then show ?case by (simp add: scaled_def)
next
  case (Cons it its)
  note p = pass_scaled[OF assms(1) Cons.prems, of it]
  show ?case
  proof (cases "raised (pass sel it s) = None")
    case True
    with p have sc: "scaled (final (pass sel it s)) (final (pass sel it t))" by simp
    have rt: "raised (pass sel it t) = None" using p True by simp
    show ?thesis
      unfolding loop_Cons if_P[OF True] if_P[OF rt] using sc by (rule Cons.IH)
  next
    case False
    then have rt: "raised (pass sel it t) \<noteq> None" using p by simp
    show ?thesis
      unfolding loop_Cons if_not_P[OF False] if_not_P[OF rt] using p by simp
  qed
qed

section \<open>Concrete runs\<close>

lemmas run_defs = driver_def init_def pass_def rayleigh_def emit_def direction_def update_def
  createVecLeft_def mult_def dot_def vadd_def vscale_def Let_def

lemmas solver_defs = stepChoice_rr_def smallA_def smallM_def eigh_ref_def pd2_def lower_def
  chol0_def chol1_def jacobi_def comb_def col0_def col1_def power2_eq_square

lemma sqrt_25: "sqrt 25 = 5" by (rule real_sqrt_unique) simp_all

lemma sqrt_144: "sqrt 144 = 12" by (rule real_sqrt_unique) simp_all

lemma sqrt_16_25: "sqrt (16 / 25) = 4 / 5" by (rule real_sqrt_unique) (simp_all add: power2_eq_square)

lemma u2: "[0..<2] = [0, Suc 0]" by (simp add: upt_conv_Cons)

text \<open>
  Two passes of the second cell on \<open>A = diag(1, 2)\<close>, \<open>M = I\<close>, the identity as
  preconditioner and \<open>u0 = (3, 4)\<close>: pass 0 finds the eigenvector \<open>(1, 0)\<close> exactly,
  pass 1 prints its eigenvalue and then meets a direction parallel to the iterate.
\<close>

lemma run_ex:
  "out (final (driver (stepChoice_rr eigh_ref) 2 [[1, 0], [0, 2]] [[1, 0], [0, 1]] [[1, 0], [0, 1]] [3, 4])) =
     [(0, 41 / 25 / pi\<^sup>2), (1, 1 / pi\<^sup>2)]"
  by (simp add: run_defs solver_defs u2 sqrt_25 sqrt_144 sqrt_16_25)

lemma operators_ex:
  "square 2 [[1, 0], [0, 2]]" "symmetric [[1, 0], [0, 2]]"
  "square 2 [[1, 0], [0, 1]]" "symmetric [[1, 0], [0, 1]]"
  by (simp_all add: square_def symmetric_def u2 numeral_2_eq_2 upt_rec)

lemma pos_def_ex: "pos_def 2 [[1, 0], [0, 1]]"
  unfolding pos_def_def
proof (intro allI impI)
  fix x :: vec assume "length x = 2" "x \<noteq> replicate 2 0"
  then obtain a b where x: "x = [a, b]" "a \<noteq> 0 \<or> b \<noteq> 0"
    by (auto simp: length_Suc_conv numeral_2_eq_2)
  then have "0 < a * a + b * b"
    using sum_power2_gt_zero_iff[of a b] by (simp add: power2_eq_square)
  then show "0 < dot x (mult [[1, 0], [0, 1]] x)" by (simp add: x dot_def mult_def)
qed

lemma independent_ex: "independent 2 [3, 4] [198 / 25, 364 / 25]"
  unfolding independent_def
proof (intro allI impI)
  fix a b :: real
  assume "vadd (vscale a [3, 4]) (vscale b [198 / 25, 364 / 25]) = replicate 2 0"
  then have "a * 3 + b * (198 / 25) = 0" "a * 4 + b * (364 / 25) = 0"
    by (simp_all add: vadd_def vscale_def numeral_2_eq_2)
  then show "a = 0 \<and> b = 0" by auto
qed

lemma dependent_ex2: "\<not> independent 2 [1, - 1] [2, - 2]"
proof -
  have "vadd (vscale 2 [1, - 1]) (vscale (- 1) [2, - 2]) = replicate 2 0"
    by (simp add: vadd_def vscale_def numeral_2_eq_2)
  then show ?thesis unfolding independent_def by fastforce
qed

lemma dependent_ex: "\<not> independent (Suc 0) [1] [2]"
proof -
  have "vadd (vscale 2 [1]) (vscale (- 1) [2]) = replicate (Suc 0) 0"
    by (simp add: vadd_def vscale_def)
  then show ?thesis unfolding independent_def by fastforce
qed

section \<open>The claims\<close>

subsection \<open>C1: the sign of the residual\<close>

text \<open>
  C1 states that the direction handed to the update is the preconditioner applied to
  \<open>A u - \<rho> M u\<close>, as the text of the notebook above the loop writes it. The loop
  computes \<^verbatim>\<open>u = Au0+rho*Mu0\<close>, with a plus sign, in both cells. For the 1x1
  operators \<open>A = 2\<close>, \<open>M = 1\<close>, the identity as preconditioner and \<open>u0 = 1\<close> the
  first pass of either cell finds \<open>\<rho> = 2\<close> and leaves \<open>w = 4\<close>, where the documented
  direction is \<open>0\<close>.
\<close>

theorem direction_sign:
  "rho (final (driver stepChoice_const 1 [[2]] [[1]] [[1]] [1])) = 2 \<and>
   w_vec (final (driver stepChoice_const 1 [[2]] [[1]] [[1]] [1])) = [4] \<and>
   w_vec (final (driver (stepChoice_rr eigh_ref) 1 [[2]] [[1]] [[1]] [1])) = [4] \<and>
   documented_direction [[1]] [[2]] [[1]] [1] 2 = [0]"
  by (simp add: run_defs solver_defs stepChoice_const_def documented_direction_def)

subsection \<open>C2: the Rayleigh quotient\<close>

text \<open>
  C2: for an iterate with \<open>u \<cdot> M u > 0\<close> the first three lines of a pass complete and
  leave \<open>\<rho> = (u \<cdot> A u) / (u \<cdot> M u)\<close>. They make two operator applications (each
  into a fresh duplicate) and two dot products, and write nothing but the temporaries
  \<^verbatim>\<open>Au0\<close>, \<^verbatim>\<open>Mu0\<close> and \<^verbatim>\<open>rho\<close>.
\<close>

theorem rayleigh_quotient:
  assumes "0 < dot (u0 s) (mult (M_mat s) (u0 s))"
  shows "rayleigh s = Done
           (s\<lparr>Au0 := mult (A_mat s) (u0 s), Mu0 := mult (M_mat s) (u0 s),
              rho := dot (u0 s) (mult (A_mat s) (u0 s)) / dot (u0 s) (mult (M_mat s) (u0 s)),
              calls := calls s @ [Duplicate, MatMult, Duplicate, MatMult, VecDot, VecDot]\<rparr>)"
  using assms rayleigh_nonzero[of s] by (simp add: form_def rayleigh_rho_def)

theorem rayleigh_quotient_witness:
  "0 < dot [1, 1] (mult [[1, 0], [0, 1]] [1, 1]) \<and>
   rho (final (rayleigh (init [[2, 1], [1, 2]] [[1, 0], [0, 1]] [[1, 0], [0, 1]] [1, 1]))) = 3 \<and>
   calls (final (rayleigh (init [[2, 1], [1, 2]] [[1, 0], [0, 1]] [[1, 0], [0, 1]] [1, 1]))) =
     [Duplicate, MatMult, Duplicate, MatMult, VecDot, VecDot]"
proof -
  have h: "0 < dot (u0 (init [[2, 1], [1, 2]] [[1, 0], [0, 1]] [[1, 0], [0, 1]] [1, 1]))
      (mult (M_mat (init [[2, 1], [1, 2]] [[1, 0], [0, 1]] [[1, 0], [0, 1]] [1, 1]))
         (u0 (init [[2, 1], [1, 2]] [[1, 0], [0, 1]] [[1, 0], [0, 1]] [1, 1])))"
    by (simp add: mult_def dot_def)
  show ?thesis
    using h rayleigh_quotient[OF h] by (simp add: mult_def dot_def init_def)
qed

subsection \<open>C3: the Rayleigh--Ritz selector\<close>

text \<open>
  C3: let \<open>A\<close> and \<open>M\<close> be symmetric, \<open>M\<close> positive definite, \<open>x\<close> and \<open>w\<close> linearly
  independent, and let the dense solver keep to its documentation. Then the second
  \<^verbatim>\<open>stepChoice\<close> forms the two 2x2 matrices of the specification and returns a pair
  \<open>om\<close>, not zero, with \<open>smallA om = \<lambda> smallM om\<close> for the smallest \<open>\<lambda>\<close> that has
  such a pair.
\<close>

theorem stepChoice_rr_eigenvector:
  assumes "sound eigh" "accepts eigh"
    and "square n A" "symmetric A" "square n M" "symmetric M" "pos_def n M"
    and "length x = n" "length w = n" "independent n x w"
  shows "\<exists>om lam cs.
           stepChoice_rr eigh A M w x = (Inr om, cs) \<and>
           smallA A w x = ((dot x (mult A x), dot x (mult A w)), (dot w (mult A x), dot w (mult A w))) \<and>
           smallM M w x = ((dot x (mult M x), dot x (mult M w)), (dot w (mult M x), dot w (mult M w))) \<and>
           om \<noteq> (0, 0) \<and>
           apply2 (smallA A w x) om = scale_pair lam (apply2 (smallM M w x) om) \<and>
           (\<forall>mu y. y \<noteq> (0, 0) \<and> apply2 (smallA A w x) y = scale_pair mu (apply2 (smallM M w x) y)
              \<longrightarrow> lam \<le> mu)"
proof -
  let ?a = "smallA A w x" and ?b = "smallM M w x"
  have "pd2 ?b" unfolding smallM_smallA using assms(5,6,7,8,9,10) by (rule small_pd)
  with assms(2) obtain r where "eigh ?a ?b = Inr r" unfolding accepts_def by blast
  then obtain wv V where e: "eigh ?a ?b = Inr (wv, V)" by (cases r) simp
  have d: "decomposes ?a ?b wv V" using assms(1)[unfolded sound_def, rule_format, OF e] .
  have sa: "apply2 ?a y = app2 (lower ?a) y" for y
    using smallA_symmetric[OF assms(3,4,8,9)] by (rule apply2_symmetric)
  have sb: "apply2 ?b y = app2 (lower ?b) y" for y
    unfolding smallM_smallA using smallA_symmetric[OF assms(5,6,8,9)] by (rule apply2_symmetric)
  have 1: "stepChoice_rr eigh A M w x = (Inr (col0 V), snd (stepChoice_rr eigh A M w x))"
    using e by (simp add: stepChoice_rr_def col0_def)
  have 2: "col0 V \<noteq> (0, 0)"
  proof
    assume "col0 V = (0, 0)"
    then have "bil2 (lower ?b) (col0 V) (col0 V) = 0" by (cases "lower ?b") simp
    with d show False by (simp add: decomposes_def)
  qed
  have 3: "apply2 ?a (col0 V) = scale_pair (fst wv) (apply2 ?b (col0 V))"
    using decomposes_eigenvector[OF d] by (simp add: sa sb scale_pair_def)
  have 4: "\<forall>mu y. y \<noteq> (0, 0) \<and> apply2 ?a y = scale_pair mu (apply2 ?b y) \<longrightarrow> fst wv \<le> mu"
  proof (intro allI impI)
    fix mu y assume "y \<noteq> (0, 0) \<and> apply2 ?a y = scale_pair mu (apply2 ?b y)"
    then show "fst wv \<le> mu"
      using d by (intro decomposes_least[of ?a ?b wv V y mu]) (simp_all add: sa sb)
  qed
  have 5: "?a = ((dot x (mult A x), dot x (mult A w)), (dot w (mult A x), dot w (mult A w)))"
    by (simp add: smallA_def Let_def)
  have 6: "?b = ((dot x (mult M x), dot x (mult M w)), (dot w (mult M x), dot w (mult M w)))"
    by (simp add: smallM_def Let_def)
  show ?thesis
    by (intro exI conjI) (rule 1 5 6 2 3 4)+
qed

theorem stepChoice_rr_eigenvector_witness:
  "fst (stepChoice_rr eigh_ref [[1, 0], [0, 2]] [[1, 0], [0, 1]] [198 / 25, 364 / 25] [3, 4]) =
     Inr (91 / 75, - 1 / 3) \<and>
   (\<exists>om lam cs.
      stepChoice_rr eigh_ref [[1, 0], [0, 2]] [[1, 0], [0, 1]] [198 / 25, 364 / 25] [3, 4] = (Inr om, cs) \<and>
      om \<noteq> (0, 0) \<and>
      apply2 (smallA [[1, 0], [0, 2]] [198 / 25, 364 / 25] [3, 4]) om =
        scale_pair lam (apply2 (smallM [[1, 0], [0, 1]] [198 / 25, 364 / 25] [3, 4]) om) \<and>
      (\<forall>mu y. y \<noteq> (0, 0) \<and>
          apply2 (smallA [[1, 0], [0, 2]] [198 / 25, 364 / 25] [3, 4]) y =
            scale_pair mu (apply2 (smallM [[1, 0], [0, 1]] [198 / 25, 364 / 25] [3, 4]) y)
          \<longrightarrow> lam \<le> mu))"
proof -
  have "fst (stepChoice_rr eigh_ref [[1, 0], [0, 2]] [[1, 0], [0, 1]] [198 / 25, 364 / 25] [3, 4]) =
     Inr (91 / 75, - 1 / 3)"
    by (simp add: solver_defs Let_def mult_def dot_def sqrt_25 sqrt_144 sqrt_16_25)
  moreover from stepChoice_rr_eigenvector[OF eigh_ref_sound eigh_ref_accepts operators_ex
      pos_def_ex _ _ independent_ex]
  have "\<exists>om lam cs.
      stepChoice_rr eigh_ref [[1, 0], [0, 2]] [[1, 0], [0, 1]] [198 / 25, 364 / 25] [3, 4] = (Inr om, cs) \<and>
      om \<noteq> (0, 0) \<and>
      apply2 (smallA [[1, 0], [0, 2]] [198 / 25, 364 / 25] [3, 4]) om =
        scale_pair lam (apply2 (smallM [[1, 0], [0, 1]] [198 / 25, 364 / 25] [3, 4]) om) \<and>
      (\<forall>mu y. y \<noteq> (0, 0) \<and>
          apply2 (smallA [[1, 0], [0, 2]] [198 / 25, 364 / 25] [3, 4]) y =
            scale_pair mu (apply2 (smallM [[1, 0], [0, 1]] [198 / 25, 364 / 25] [3, 4]) y)
          \<longrightarrow> lam \<le> mu)"
    by simp blast
  ultimately show ?thesis by (rule conjI)
qed

subsection \<open>C4: the estimates never increase\<close>

text \<open>
  C4: with symmetric operators and a solver that keeps to its documentation, the
  estimates printed by the second cell never increase from one pass to the next, from
  the first pass on; nor do the quotients \<open>\<rho>\<close> themselves, which are the printed
  values times \<open>\<pi>\<^sup>2\<close>. A run that raises has printed a sequence with the same
  property.
\<close>

theorem rayleigh_ritz_monotone:
  assumes "sound eigh"
    and "square n A" "symmetric A" "square n M" "symmetric M" "length P = n" "length x0 = n"
  shows "nonincreasing (map snd (out (final (driver (stepChoice_rr eigh) itMax A M P x0)))) \<and>
         nonincreasing (map (\<lambda>e. snd e * pi\<^sup>2)
            (out (final (driver (stepChoice_rr eigh) itMax A M P x0))))"
proof -
  have "\<exists>evs. out (final (loop (stepChoice_rr eigh) [0..<itMax] (init A M P x0))) =
          out (init A M P x0) @ evs \<and> nonincreasing (map snd evs) \<and>
          (\<forall>e\<in>set evs. snd e \<le> rayleigh_rho (A_mat (init A M P x0)) (M_mat (init A M P x0))
              (u0 (init A M P x0)) / pi\<^sup>2)"
    using assms by (intro loop_rr_monotone) simp_all
  then have 1: "nonincreasing (map snd (out (final (driver (stepChoice_rr eigh) itMax A M P x0))))"
    by (auto simp: driver_def)
  from nonincreasing_scale[OF 1, of "pi\<^sup>2"] show ?thesis
    using 1 by (simp add: comp_def)
qed

theorem rayleigh_ritz_monotone_witness:
  "sound eigh_ref \<and>
   map snd (out (final (driver (stepChoice_rr eigh_ref) 2
      [[1, 0], [0, 2]] [[1, 0], [0, 1]] [[1, 0], [0, 1]] [3, 4]))) = [41 / 25 / pi\<^sup>2, 1 / pi\<^sup>2] \<and>
   nonincreasing (map snd (out (final (driver (stepChoice_rr eigh_ref) 2
      [[1, 0], [0, 2]] [[1, 0], [0, 1]] [[1, 0], [0, 1]] [3, 4]))))"
  using rayleigh_ritz_monotone[OF eigh_ref_sound operators_ex, of "[[1, 0], [0, 1]]" "[3, 4]" 2]
    eigh_ref_sound run_ex
  by simp

subsection \<open>C5: the number of passes\<close>

text \<open>
  C5 as stated, that the driver always completes the configured number of passes, fails
  on a run in which a pass raises. With one degree of freedom the direction \<open>w\<close> is
  parallel to \<open>u0\<close>, the small mass matrix is singular and the dense solver raises in
  pass 0: one line printed, not ten.
\<close>

theorem driver_aborts:
  "raised (driver (stepChoice_rr eigh_ref) 10 [[2]] [[1]] [[1/2]] [1]) = Some LinAlgError \<and>
   out (final (driver (stepChoice_rr eigh_ref) 10 [[2]] [[1]] [[1/2]] [1])) = [(0, 2 / pi\<^sup>2)]"
proof -
  have "[0..<10] = 0 # [1..<10]" by (simp add: upt_conv_Cons)
  then show ?thesis
    by (simp add: run_defs stepChoice_rr_def smallA_def smallM_def eigh_ref_def pd2_def lower_def)
qed

text \<open>
  C5, amended: the loop has no convergence test and no exit of its own. The printed
  indices are \<open>0, \<dots>, k - 1\<close> for some \<open>k\<close> up to \<open>itMax\<close>, one line per pass that
  reached the print, and a run in which no pass raises has \<open>k = itMax\<close>. The driver is a
  total function: every run ends, with a final state or with the state at the raise.
\<close>

theorem driver_passes:
  "\<exists>k\<le>itMax. map fst (out (final (driver sel itMax A M P x0))) = [0..<k] \<and>
      (raised (driver sel itMax A M P x0) = None \<longrightarrow> k = itMax)"
proof -
  from loop_out[of "[0..<itMax]" sel "init A M P x0"]
  obtain k where "k \<le> length [0..<itMax] \<and>
    map fst (out (final (loop sel [0..<itMax] (init A M P x0)))) =
       map fst (out (init A M P x0)) @ take k [0..<itMax] \<and>
    (raised (loop sel [0..<itMax] (init A M P x0)) = None \<longrightarrow> k = length [0..<itMax])" ..
  then have k: "k \<le> itMax"
    "map fst (out (final (driver sel itMax A M P x0))) = take k [0..<itMax]"
    "raised (driver sel itMax A M P x0) = None \<longrightarrow> k = itMax"
    by (simp_all add: driver_def)
  have "take k [0..<itMax] = [0..<k]" using k(1) by (simp add: take_upt)
  with k show ?thesis by (intro exI[of _ k]) simp
qed

theorem driver_passes_witness:
  "raised (driver stepChoice_const 2 [[2]] [[1]] [[1]] [1]) = None \<and>
   map fst (out (final (driver stepChoice_const 2 [[2]] [[1]] [[1]] [1]))) = [0, 1]"
proof -
  have r: "raised (driver stepChoice_const 2 [[2]] [[1]] [[1]] [1]) = None"
    by (simp add: run_defs stepChoice_const_def u2)
  from driver_passes[of 2 stepChoice_const "[[2]]" "[[1]]" "[[1]]" "[1]"] r
  show ?thesis by (auto simp: u2)
qed

subsection \<open>C6: a direction parallel to the iterate\<close>

text \<open>
  C6 as stated, that the selector raises \<^verbatim>\<open>DegenerateSubspaceError\<close> on linearly
  dependent vectors, fails: the second \<^verbatim>\<open>stepChoice\<close> has no test of its own and
  hands the singular matrix to the dense solver. For \<open>u0 = 1\<close>, \<open>w = 2\<close> the small mass
  matrix is \<open>((1, 2), (2, 4))\<close>, its factorisation stops at a zero pivot, and what leaves
  the selector is the solver's \<^verbatim>\<open>LinAlgError\<close>.
\<close>

theorem stepChoice_rr_parallel:
  "fst (stepChoice_rr eigh_ref [[2]] [[1]] [2] [1]) = Inl LinAlgError \<and>
   fst (stepChoice_rr eigh_ref [[2]] [[1]] [2] [1]) \<noteq> Inl DegenerateSubspaceError"
  by (simp add: solver_defs mult_def dot_def)

text \<open>
  C6, amended: for linearly dependent \<open>x\<close> and \<open>w\<close> the small mass matrix the selector
  forms is singular, and the selector does nothing about it. Whatever the dense solver
  does with that matrix is the selector's outcome: an exception of the solver leaves
  the selector unchanged, a returned eigenvector array gives its column 0 as the pair,
  with no error, and \<^verbatim>\<open>DegenerateSubspaceError\<close> comes out only if the solver itself
  raises it.
\<close>

theorem stepChoice_rr_dependent:
  assumes "length x = n" "length w = n" "\<not> independent n x w"
  shows "det2 (smallM M w x) = 0 \<and> \<not> pd2 (smallM M w x) \<and>
         (\<forall>e. eigh (smallA A w x) (smallM M w x) = Inl e \<longrightarrow>
              fst (stepChoice_rr eigh A M w x) = Inl e) \<and>
         (\<forall>wv V. eigh (smallA A w x) (smallM M w x) = Inr (wv, V) \<longrightarrow>
              fst (stepChoice_rr eigh A M w x) = Inr (col0 V)) \<and>
         (eigh (smallA A w x) (smallM M w x) \<noteq> Inl DegenerateSubspaceError \<longrightarrow>
              fst (stepChoice_rr eigh A M w x) \<noteq> Inl DegenerateSubspaceError)"
proof -
  note d = dependent_cases[OF assms]
  have 1: "det2 (smallM M w x) = 0" unfolding smallM_smallA using d by (rule small_singular)
  have 2: "\<not> pd2 (smallM M w x)" unfolding smallM_smallA using d by (rule small_dependent)
  have 3: "\<forall>e. eigh (smallA A w x) (smallM M w x) = Inl e \<longrightarrow>
              fst (stepChoice_rr eigh A M w x) = Inl e"
    by (simp add: stepChoice_rr_def)
  have 4: "\<forall>wv V. eigh (smallA A w x) (smallM M w x) = Inr (wv, V) \<longrightarrow>
              fst (stepChoice_rr eigh A M w x) = Inr (col0 V)"
    by (simp add: stepChoice_rr_def col0_def)
  have 5: "eigh (smallA A w x) (smallM M w x) \<noteq> Inl DegenerateSubspaceError \<longrightarrow>
              fst (stepChoice_rr eigh A M w x) \<noteq> Inl DegenerateSubspaceError"
    by (cases "eigh (smallA A w x) (smallM M w x)")
       (simp_all add: stepChoice_rr_def split: prod.splits)
  from 1 2 3 4 5 show ?thesis by (intro conjI)
qed

text \<open>
  Both ways out, on dependent pairs: the exact solver raises on \<open>u0 = 1\<close>, \<open>w = 2\<close>, and
  a solver that returns an array on the singular matrix of \<open>u0 = (1, -1)\<close>,
  \<open>w = (2, -2)\<close> makes the selector return a pair.
\<close>

theorem stepChoice_rr_dependent_witness:
  "\<not> independent (Suc 0) [1] [2] \<and> \<not> independent 2 [1, - 1] [2, - 2] \<and>
   det2 (smallM [[1]] [2] [1]) = 0 \<and>
   fst (stepChoice_rr eigh_ref [[2]] [[1]] [2] [1]) = Inl LinAlgError \<and>
   det2 (smallM [[1, 0], [0, 1]] [2, - 2] [1, - 1]) = 0 \<and>
   fst (stepChoice_rr (\<lambda>a b. Inr ((0, 1), ((3, 0), (- 1, 0))))
          [[1, 0], [0, 2]] [[1, 0], [0, 1]] [2, - 2] [1, - 1]) = Inr (3, - 1)"
proof -
  have e: "eigh_ref (smallA [[2]] [2] [1]) (smallM [[1]] [2] [1]) = Inl LinAlgError"
    by (simp add: solver_defs mult_def dot_def)
  from stepChoice_rr_dependent[OF _ _ dependent_ex, of "[[1]]" eigh_ref "[[2]]"] e
  have 1: "det2 (smallM [[1]] [2] [1]) = 0"
    "fst (stepChoice_rr eigh_ref [[2]] [[1]] [2] [1]) = Inl LinAlgError"
    by simp_all
  from stepChoice_rr_dependent[OF _ _ dependent_ex2, of "[[1, 0], [0, 1]]"
      "\<lambda>a b. Inr ((0, 1), ((3, 0), (- 1, 0)))" "[[1, 0], [0, 2]]"]
  have 2: "det2 (smallM [[1, 0], [0, 1]] [2, - 2] [1, - 1]) = 0"
    "fst (stepChoice_rr (\<lambda>a b. Inr ((0, 1), ((3, 0), (- 1, 0))))
          [[1, 0], [0, 2]] [[1, 0], [0, 1]] [2, - 2] [1, - 1]) = Inr (3, - 1)"
    by (simp_all add: col0_def)
  from dependent_ex dependent_ex2 1 2 show ?thesis by (intro conjI)
qed

subsection \<open>C7: a zero denominator\<close>

text \<open>
  C7 as stated, that a vanishing \<open>u \<cdot> M u\<close> is signalled as
  \<^verbatim>\<open>DegenerateIterateError\<close> behind a tolerance, fails: the loop divides without a
  test, and for the zero iterate Python raises \<^verbatim>\<open>ZeroDivisionError\<close>.
\<close>

theorem rayleigh_zero_division:
  "raised (driver stepChoice_const 10 [[2]] [[1]] [[1]] [0]) = Some ZeroDivisionError \<and>
   raised (driver stepChoice_const 10 [[2]] [[1]] [[1]] [0]) \<noteq> Some DegenerateIterateError"
proof -
  have "[0..<10] = 0 # [1..<10]" by (simp add: upt_conv_Cons)
  then show ?thesis by (simp add: run_defs)
qed

text \<open>
  C7, amended: the quotient is guarded by nothing but the division itself. An exactly
  zero \<open>u \<cdot> M u\<close> raises \<^verbatim>\<open>ZeroDivisionError\<close>; every other value, however small,
  is divided by; \<^verbatim>\<open>DegenerateIterateError\<close> is never raised.
\<close>

theorem rayleigh_division:
  "(dot (u0 s) (mult (M_mat s) (u0 s)) = 0 \<longrightarrow> raised (rayleigh s) = Some ZeroDivisionError) \<and>
   (dot (u0 s) (mult (M_mat s) (u0 s)) \<noteq> 0 \<longrightarrow>
      raised (rayleigh s) = None \<and>
      rho (final (rayleigh s)) =
        dot (u0 s) (mult (A_mat s) (u0 s)) / dot (u0 s) (mult (M_mat s) (u0 s))) \<and>
   raised (rayleigh s) \<noteq> Some DegenerateIterateError"
  using rayleigh_zero[of s] rayleigh_nonzero[of s]
  by (cases "form (M_mat s) (u0 s) (u0 s) = 0") (simp_all add: form_def rayleigh_rho_def)

theorem rayleigh_division_witness:
  "raised (rayleigh (init [[2]] [[1]] [[1]] [0])) = Some ZeroDivisionError \<and>
   raised (rayleigh (init [[2]] [[1]] [[1]] [1 / 10 ^ 10])) = None \<and>
   rho (final (rayleigh (init [[2]] [[1]] [[1]] [1 / 10 ^ 10]))) = 2"
  using rayleigh_division[of "init [[2]] [[1]] [[1]] [0]"]
    rayleigh_division[of "init [[2]] [[1]] [[1]] [1 / 10 ^ 10]"]
  by (simp add: init_def mult_def dot_def)

subsection \<open>C8: scaling the initial vector\<close>

text \<open>
  C8: the run from \<open>c u0\<close>, \<open>c \<noteq> 0\<close>, prints what the run from \<open>u0\<close> prints and ends
  the same way: always with the constant selector, and with the Rayleigh--Ritz selector
  when the dense solver answers a pencil scaled by \<open>k > 0\<close> with the same eigenvalues
  and the eigenvectors divided by \<open>sqrt k\<close>, as a solver that normalises
  \<open>v\<^sup>T b v = 1\<close> does in exact arithmetic.
\<close>

theorem scale_invariance:
  assumes "c \<noteq> 0"
  shows "out (final (driver stepChoice_const itMax A M P (vscale c x0))) =
           out (final (driver stepChoice_const itMax A M P x0)) \<and>
         raised (driver stepChoice_const itMax A M P (vscale c x0)) =
           raised (driver stepChoice_const itMax A M P x0) \<and>
         (equivariant eigh \<longrightarrow>
            out (final (driver (stepChoice_rr eigh) itMax A M P (vscale c x0))) =
              out (final (driver (stepChoice_rr eigh) itMax A M P x0)) \<and>
            raised (driver (stepChoice_rr eigh) itMax A M P (vscale c x0)) =
              raised (driver (stepChoice_rr eigh) itMax A M P x0))"
proof -
  have s: "scaled (init A M P x0) (init A M P (vscale c x0))"
    unfolding scaled_def using assms by (intro conjI exI[of _ c]) simp_all
  show ?thesis
    using loop_scaled[OF homogeneous_const s, of "[0..<itMax]"]
      loop_scaled[OF homogeneous_rr s, of eigh "[0..<itMax]"]
    by (simp add: driver_def)
qed

theorem scale_invariance_witness:
  "(2::real) \<noteq> 0 \<and> equivariant eigh_ref \<and>
   out (final (driver stepChoice_const 2 [[2]] [[1]] [[1]] (vscale 2 [1]))) =
     out (final (driver stepChoice_const 2 [[2]] [[1]] [[1]] [1])) \<and>
   out (final (driver (stepChoice_rr eigh_ref) 2
      [[1, 0], [0, 2]] [[1, 0], [0, 1]] [[1, 0], [0, 1]] (vscale 2 [3, 4]))) =
     [(0, 41 / 25 / pi\<^sup>2), (1, 1 / pi\<^sup>2)]"
proof -
  have c: "(2::real) \<noteq> 0" by simp
  from scale_invariance[OF c, of 2 "[[2]]" "[[1]]" "[[1]]" "[1]"]
  have 1: "out (final (driver stepChoice_const 2 [[2]] [[1]] [[1]] (vscale 2 [1]))) =
     out (final (driver stepChoice_const 2 [[2]] [[1]] [[1]] [1]))" by (rule conjunct1)
  from scale_invariance[OF c, of 2 "[[1, 0], [0, 2]]" "[[1, 0], [0, 1]]" "[[1, 0], [0, 1]]" "[3, 4]" eigh_ref]
    eigh_ref_equivariant
  have 2: "out (final (driver (stepChoice_rr eigh_ref) 2
      [[1, 0], [0, 2]] [[1, 0], [0, 1]] [[1, 0], [0, 1]] (vscale 2 [3, 4]))) =
     [(0, 41 / 25 / pi\<^sup>2), (1, 1 / pi\<^sup>2)]"
    by (simp only: run_ex)
  from c eigh_ref_equivariant 1 2 show ?thesis by (intro conjI)
qed

subsection \<open>C9: the operators are read only\<close>

text \<open>
  C9: whatever the selector, the number of passes and the way the run ends, the
  operators \<open>A\<close> and \<open>M\<close> and the preconditioner are at the end what they were at the
  start; the passes write the iterate, \<open>\<rho>\<close>, the temporaries and the output only.
\<close>

theorem operators_unchanged:
  "A_mat (final (driver sel itMax A M P x0)) = A \<and>
   M_mat (final (driver sel itMax A M P x0)) = M \<and>
   pc (final (driver sel itMax A M P x0)) = P"
  using loop_frame[of sel "[0..<itMax]" "init A M P x0"] by (simp add: driver_def)

subsection \<open>C10: the first estimate does not depend on the selector\<close>

text \<open>
  C10: from the same initial vector the two drivers print the same first line, if they
  print one at all: the quotient of pass 0 is taken from \<open>u0\<close> before the selector is
  called. Whatever the solver, the first line is the quotient of the initial vector
  over \<open>\<pi>\<^sup>2\<close>, and there is none when \<open>itMax = 0\<close> or the division raises.
\<close>

theorem first_estimate_same:
  "take 1 (out (final (driver stepChoice_const itMax A M P x0))) =
     take 1 (out (final (driver (stepChoice_rr eigh) itMax A M P x0))) \<and>
   take 1 (out (final (driver (stepChoice_rr eigh) itMax A M P x0))) =
     (if itMax = 0 \<or> form M x0 x0 = 0 then [] else [(0, rayleigh_rho A M x0 / pi\<^sup>2)])"
proof (cases itMax)
  case 0
  then show ?thesis by (simp add: driver_def)
next
  case (Suc n)
  then have "[0..<itMax] = 0 # [1..<itMax]" by (simp add: upt_conv_Cons)
  then show ?thesis using Suc by (simp only: driver_def loop_first) simp
qed

end
